theory Spec2Isabelle
  imports Main "HOL-Library.Word" "HOL-Library.Signed_Division"
begin

section \<open>Fixed-point scalars (package geom)\<close>

text \<open>
  \<^verbatim>\<open>type Fix32 int32\<close> and \<^verbatim>\<open>type Fix64 int64\<close>: machine integers, so \<open>+\<close>, \<open>-\<close>,
  \<open>*\<close> and unary minus wrap around. Comparison \<^verbatim>\<open><\<close> is the signed one (\<open><s\<close>).
\<close>

type_synonym Fix32 = "32 word"
type_synonym Fix64 = "64 word"

text \<open>
  Go's \<^verbatim>\<open>/\<close> and \<^verbatim>\<open>%\<close> on signed integers truncate towards zero. Every divisor
  in the modelled code is the constant 256, so neither the division-by-zero panic nor
  the overflow of \<^verbatim>\<open>MinInt / -1\<close> can occur.
\<close>

definition quo :: "'a::len word \<Rightarrow> 'a word \<Rightarrow> 'a word" where
  "quo a b = word_of_int (sint a sdiv sint b)"

definition rem :: "'a::len word \<Rightarrow> 'a word \<Rightarrow> 'a word" where
  "rem a b = word_of_int (sint a smod sint b)"

text \<open>
  \<^verbatim>\<open>func MaxAbs(a, b Fix32) Fix32\<close>: both parameters are overwritten by their negation
  when negative, then the larger one is returned.
\<close>

definition MaxAbs :: "Fix32 \<Rightarrow> Fix32 \<Rightarrow> Fix32" where
  "MaxAbs a b =
     (let a = (if a <s 0 then - a else a);
          b = (if b <s 0 then - b else b)
      in if a <s b then b else a)"

section \<open>Points\<close>

record Point =
  X :: Fix32
  Y :: Fix32

definition Pt :: "Fix32 \<Rightarrow> Fix32 \<Rightarrow> Point" where
  "Pt x y = \<lparr>X = x, Y = y\<rparr>"

definition Add :: "Point \<Rightarrow> Point \<Rightarrow> Point" where
  "Add p q = \<lparr>X = X p + X q, Y = Y p + Y q\<rparr>"

definition Sub :: "Point \<Rightarrow> Point \<Rightarrow> Point" where
  "Sub p q = \<lparr>X = X p - X q, Y = Y p - Y q\<rparr>"

text \<open>
  \<^verbatim>\<open>Point{p.X * k / 256, p.Y * k / 256}\<close>: both operands of the product are
  \<^verbatim>\<open>Fix32\<close>, so the product is an \<^verbatim>\<open>int32\<close> product and wraps before the division.
\<close>

definition Mul :: "Point \<Rightarrow> Fix32 \<Rightarrow> Point" where
  "Mul p k = \<lparr>X = quo (X p * k) 256, Y = quo (Y p * k) 256\<rparr>"

definition Neg :: "Point \<Rightarrow> Point" where
  "Neg p = \<lparr>X = - X p, Y = - Y p\<rparr>"

text \<open>
  \<^verbatim>\<open>Rot45CW\<close> widens both coordinates to \<^verbatim>\<open>int64\<close> (a sign extension, \<open>scast\<close>),
  computes there, and converts the results back with \<^verbatim>\<open>Fix32(qx)\<close>, which keeps the
  low 32 bits (\<open>ucast\<close> to the narrower word).
\<close>

definition Rot45CW :: "Point \<Rightarrow> Point" where
  "Rot45CW p =
     (let px = (scast (X p) :: Fix64); py = (scast (Y p) :: Fix64);
          qx = quo ((px - py) * 181) 256;
          qy = quo ((px + py) * 181) 256
      in \<lparr>X = ucast qx, Y = ucast qy\<rparr>)"

definition Rot90CW :: "Point \<Rightarrow> Point" where
  "Rot90CW p = \<lparr>X = - Y p, Y = X p\<rparr>"

section \<open>Rendering of scalars\<close>

text \<open>
  \<^verbatim>\<open>fmt.Sprintf\<close> with the verbs \<^verbatim>\<open>%d\<close> and \<^verbatim>\<open>%03d\<close>: the decimal digits of the
  value, after a minus sign when it is negative; \<^verbatim>\<open>%03d\<close> pads with zeros to three
  characters, the sign included.
\<close>

definition digit :: "nat \<Rightarrow> char" where
  "digit d = char_of (48 + d)"

function decimal :: "nat \<Rightarrow> string" where
  "decimal n = (if n < 10 then [digit n] else decimal (n div 10) @ [digit (n mod 10)])"
  by pat_completeness auto
termination
  by (relation "measure id") auto

definition fmt_d :: "int \<Rightarrow> string" where
  "fmt_d v = (if v < 0 then ''-'' @ decimal (nat (- v)) else decimal (nat v))"

definition zero_pad :: "nat \<Rightarrow> string \<Rightarrow> string" where
  "zero_pad w ds = replicate (w - length ds) CHR ''0'' @ ds"

definition fmt_03d :: "int \<Rightarrow> string" where
  "fmt_03d v =
     (if v < 0 then ''-'' @ zero_pad 2 (decimal (nat (- v))) else zero_pad 3 (decimal (nat v)))"

text \<open>\<^verbatim>\<open>func (x Fix32) String() string\<close>.\<close>

definition Fix32_String :: "Fix32 \<Rightarrow> string" where
  "Fix32_String x =
     (if x <s 0 then
        (let x = - x in ''-'' @ fmt_d (sint (quo x 256)) @ '':'' @ fmt_03d (sint (rem x 256)))
      else fmt_d (sint (quo x 256)) @ '':'' @ fmt_03d (sint (rem x 256)))"

text \<open>
  \<^verbatim>\<open>fmt.Sprint\<close> of a \<^verbatim>\<open>[]geom.Fix32\<close>: the elements, each rendered by its own
  \<^verbatim>\<open>String\<close> method, separated by single spaces and enclosed in brackets.
\<close>

fun Sprint_elems :: "Fix32 list \<Rightarrow> string" where
  "Sprint_elems [] = []"
| "Sprint_elems [x] = Fix32_String x"
| "Sprint_elems (x # xs) = Fix32_String x @ '' '' @ Sprint_elems xs"

definition Sprint :: "Fix32 list \<Rightarrow> string" where
  "Sprint xs = ''['' @ Sprint_elems xs @ '']''"

section \<open>Paths (package raster)\<close>

text \<open>
  A panic is a value: \<open>BadPath\<close> is \<^verbatim>\<open>panic("freetype/raster: bad path")\<close>, the other
  two are the run-time panics of an index expression \<^verbatim>\<open>q[i]\<close> and of a slice
  expression \<^verbatim>\<open>p[lo:hi]\<close>.
\<close>

datatype error = BadPath | IndexOutOfRange | SliceBoundsOutOfRange

definition and_then :: "error + 'a \<Rightarrow> ('a \<Rightarrow> error + 'b) \<Rightarrow> error + 'b" where
  "and_then m f = (case m of Inl e \<Rightarrow> Inl e | Inr x \<Rightarrow> f x)"

text \<open>
  \<^verbatim>\<open>type Path []geom.Fix32\<close> is a Go slice: \<open>elems\<close> are its \<^verbatim>\<open>len\<close> visible
  elements, \<open>spare\<close> is the rest of the backing array up to \<^verbatim>\<open>cap\<close> (stale values that
  a reslice makes visible again). So \<^verbatim>\<open>len(p)\<close> is \<open>length (elems p)\<close> and
  \<^verbatim>\<open>cap(p)\<close> is \<open>length (elems p) + length (spare p)\<close>. Lengths are far below
  \<open>2 ^ 63\<close>, so they are natural numbers here.
\<close>

record Path =
  elems :: "Fix32 list"
  spare :: "Fix32 list"

text \<open>An index expression is checked against \<^verbatim>\<open>len\<close>, a slice expression against \<^verbatim>\<open>cap\<close>.\<close>

definition index :: "Fix32 list \<Rightarrow> int \<Rightarrow> error + Fix32" where
  "index q i = (if 0 \<le> i \<and> i < int (length q) then Inr (q ! nat i) else Inl IndexOutOfRange)"

definition slice :: "Path \<Rightarrow> nat \<Rightarrow> nat \<Rightarrow> error + Fix32 list" where
  "slice p lo hi =
     (if lo \<le> hi \<and> hi \<le> length (elems p) + length (spare p)
      then Inr (take (hi - lo) (drop lo (elems p @ spare p)))
      else Inl SliceBoundsOutOfRange)"

definition store :: "nat \<Rightarrow> Fix32 \<Rightarrow> Path \<Rightarrow> error + Path" where
  "store i v p =
     (if i < length (elems p) then Inr (p\<lparr>elems := (elems p)[i := v]\<rparr>)
      else Inl IndexOutOfRange)"

text \<open>
  \<^verbatim>\<open>func (p Path) String() string\<close>: the loop \<^verbatim>\<open>for i := 0; i < len(p); { ... }\<close> with the
  string built so far.
\<close>

function String_loop :: "Path \<Rightarrow> nat \<Rightarrow> string \<Rightarrow> error + string" where
  "String_loop p i s =
     (if i < length (elems p) then
        (let s = (if i \<noteq> 0 then s @ '' '' else s); t = elems p ! i in
         if t = 0 then
           (case slice p (i + 1) (i + 3) of Inl e \<Rightarrow> Inl e
            | Inr xs \<Rightarrow> String_loop p (i + 4) (s @ ''S0'' @ Sprint xs))
         else if t = 1 then
           (case slice p (i + 1) (i + 3) of Inl e \<Rightarrow> Inl e
            | Inr xs \<Rightarrow> String_loop p (i + 4) (s @ ''A1'' @ Sprint xs))
         else if t = 2 then
           (case slice p (i + 1) (i + 5) of Inl e \<Rightarrow> Inl e
            | Inr xs \<Rightarrow> String_loop p (i + 6) (s @ ''A2'' @ Sprint xs))
         else if t = 3 then
           (case slice p (i + 1) (i + 7) of Inl e \<Rightarrow> Inl e
            | Inr xs \<Rightarrow> String_loop p (i + 8) (s @ ''A3'' @ Sprint xs))
         else Inl BadPath)
      else Inr s)"
  by pat_completeness auto
termination
  by (relation "measure (\<lambda>(p, i, s). length (elems p) - i)") auto

definition Path_String :: "Path \<Rightarrow> error + string" where
  "Path_String p = String_loop p 0 []"

text \<open>
  \<^verbatim>\<open>grow\<close> adds \<open>n\<close> elements: into a fresh zeroed array of capacity \<open>2 * n + 8\<close> (for
  the new length \<open>n\<close>) when the capacity is exceeded, by reslicing otherwise, which
  uncovers whatever the backing array holds.
\<close>

definition grow :: "nat \<Rightarrow> Path \<Rightarrow> Path" where
  "grow n p =
     (let n = n + length (elems p) in
      if n > length (elems p) + length (spare p)
      then \<lparr>elems = elems p @ replicate (n - length (elems p)) 0,
            spare = replicate (2 * n + 8 - n) 0\<rparr>
      else \<lparr>elems = elems p @ take (n - length (elems p)) (spare p),
            spare = drop (n - length (elems p)) (spare p)\<rparr>)"

definition Clear :: "Path \<Rightarrow> Path" where
  "Clear p = \<lparr>elems = [], spare = elems p @ spare p\<rparr>"

definition Path_Start :: "Point \<Rightarrow> Path \<Rightarrow> error + Path" where
  "Path_Start a p =
     (let n = length (elems p); p = grow 4 p in
      and_then (store n 0 p) (\<lambda>p.
      and_then (store (n + 1) (X a) p) (\<lambda>p.
      and_then (store (n + 2) (Y a) p) (\<lambda>p.
      store (n + 3) 0 p))))"

definition Path_Add1 :: "Point \<Rightarrow> Path \<Rightarrow> error + Path" where
  "Path_Add1 b p =
     (let n = length (elems p); p = grow 4 p in
      and_then (store n 1 p) (\<lambda>p.
      and_then (store (n + 1) (X b) p) (\<lambda>p.
      and_then (store (n + 2) (Y b) p) (\<lambda>p.
      store (n + 3) 1 p))))"

definition Path_Add2 :: "Point \<Rightarrow> Point \<Rightarrow> Path \<Rightarrow> error + Path" where
  "Path_Add2 b c p =
     (let n = length (elems p); p = grow 6 p in
      and_then (store n 2 p) (\<lambda>p.
      and_then (store (n + 1) (X b) p) (\<lambda>p.
      and_then (store (n + 2) (Y b) p) (\<lambda>p.
      and_then (store (n + 3) (X c) p) (\<lambda>p.
      and_then (store (n + 4) (Y c) p) (\<lambda>p.
      store (n + 5) 2 p))))))"

definition Path_Add3 :: "Point \<Rightarrow> Point \<Rightarrow> Point \<Rightarrow> Path \<Rightarrow> error + Path" where
  "Path_Add3 b c d p =
     (let n = length (elems p); p = grow 8 p in
      and_then (store n 3 p) (\<lambda>p.
      and_then (store (n + 1) (X b) p) (\<lambda>p.
      and_then (store (n + 2) (Y b) p) (\<lambda>p.
      and_then (store (n + 3) (X c) p) (\<lambda>p.
      and_then (store (n + 4) (Y c) p) (\<lambda>p.
      and_then (store (n + 5) (X d) p) (\<lambda>p.
      and_then (store (n + 6) (Y d) p) (\<lambda>p.
      store (n + 7) 3 p))))))))"

text \<open>
  \<^verbatim>\<open>copy((*p)[lo:hi], src)\<close>: the slice expression is checked against the capacity, then
  \<open>min (hi - lo) (length src)\<close> elements of the backing array are overwritten from
  position \<open>lo\<close>. The source is the content of \<open>src\<close> at the call (\<^verbatim>\<open>copy\<close> handles
  overlapping slices).
\<close>

definition copy_into :: "nat \<Rightarrow> nat \<Rightarrow> Fix32 list \<Rightarrow> Path \<Rightarrow> error + Path" where
  "copy_into lo hi src p =
     (if lo \<le> hi \<and> hi \<le> length (elems p) + length (spare p) then
        (let k = min (hi - lo) (length src);
             arr = elems p @ spare p;
             arr = take lo arr @ take k src @ drop (lo + k) arr
         in Inr \<lparr>elems = take (length (elems p)) arr, spare = drop (length (elems p)) arr\<rparr>)
      else Inl SliceBoundsOutOfRange)"

definition AddPath :: "Path \<Rightarrow> Path \<Rightarrow> error + Path" where
  "AddPath q p =
     (let n = length (elems p); m = length (elems q); p = grow m p in
      copy_into n (n + m) (elems q) p)"

subsection \<open>The Adder interface and the reverse traversal\<close>

text \<open>
  \<^verbatim>\<open>type Adder interface\<close>: four methods on a receiver of some state type \<open>'s\<close>; a
  method may panic. \<open>Path_Adder\<close> is \<^verbatim>\<open>*Path\<close> as an Adder.
\<close>

record 's Adder =
  Start :: "Point \<Rightarrow> 's \<Rightarrow> error + 's"
  Add1 :: "Point \<Rightarrow> 's \<Rightarrow> error + 's"
  Add2 :: "Point \<Rightarrow> Point \<Rightarrow> 's \<Rightarrow> error + 's"
  Add3 :: "Point \<Rightarrow> Point \<Rightarrow> Point \<Rightarrow> 's \<Rightarrow> error + 's"

definition Path_Adder :: "Path Adder" where
  "Path_Adder = \<lparr>Start = Path_Start, Add1 = Path_Add1, Add2 = Path_Add2, Add3 = Path_Add3\<rparr>"

text \<open>\<^verbatim>\<open>geom.Pt(q[i], q[i+1])\<close>, the arguments read from left to right.\<close>

definition point_at :: "Fix32 list \<Rightarrow> int \<Rightarrow> error + Point" where
  "point_at q i = and_then (index q i) (\<lambda>x. and_then (index q (i + 1)) (\<lambda>y. Inr (Pt x y)))"

text \<open>
  One iteration of the loop of \<^verbatim>\<open>addPathReversed\<close> at index \<open>i\<close>: it returns, or goes on
  at a smaller index after one call of the Adder.
\<close>

datatype 's step = Return 's | Continue int 's

definition rev_body :: "'s Adder \<Rightarrow> Fix32 list \<Rightarrow> int \<Rightarrow> 's \<Rightarrow> error + 's step" where
  "rev_body p q i s =
     and_then (index q i) (\<lambda>t.
       if t = 0 then Inr (Return s)
       else if t = 1 then
         (let i = i - 4 in
          and_then (point_at q (i - 2)) (\<lambda>a.
          and_then (Add1 p a s) (\<lambda>s. Inr (Continue i s))))
       else if t = 2 then
         (let i = i - 6 in
          and_then (point_at q (i + 2)) (\<lambda>b.
          and_then (point_at q (i - 2)) (\<lambda>c.
          and_then (Add2 p b c s) (\<lambda>s. Inr (Continue i s)))))
       else if t = 3 then
         (let i = i - 8 in
          and_then (point_at q (i + 4)) (\<lambda>b.
          and_then (point_at q (i + 2)) (\<lambda>c.
          and_then (point_at q (i - 2)) (\<lambda>d.
          and_then (Add3 p b c d s) (\<lambda>s. Inr (Continue i s))))))
       else Inl BadPath)"

lemma and_then_Inr_iff: "and_then m f = Inr y \<longleftrightarrow> (\<exists>x. m = Inr x \<and> f x = Inr y)"
  by (cases m) (simp_all add: and_then_def)

lemma rev_body_Continue:
  assumes "rev_body p q i s = Inr (Continue i' s')"
  shows "0 \<le> i \<and> i' < i"
proof -
  from assms obtain t where t: "index q i = Inr t"
    by (auto simp: rev_body_def and_then_Inr_iff)
  then have "0 \<le> i" by (simp add: index_def split: if_splits)
  moreover from assms t have "i' < i"
    by (auto simp: rev_body_def and_then_Inr_iff Let_def split: if_splits)
  ultimately show ?thesis by simp
qed

function rev_loop :: "'s Adder \<Rightarrow> Fix32 list \<Rightarrow> int \<Rightarrow> 's \<Rightarrow> error + 's" where
  "rev_loop p q i s =
     (case rev_body p q i s of
        Inl e \<Rightarrow> Inl e
      | Inr (Return s') \<Rightarrow> Inr s'
      | Inr (Continue i' s') \<Rightarrow> rev_loop p q i' s')"
  by pat_completeness auto
termination
  by (relation "measure (\<lambda>(p, q, i, s). nat (i + 1))") (auto dest!: rev_body_Continue)

definition addPathReversed :: "'s Adder \<Rightarrow> Path \<Rightarrow> 's \<Rightarrow> error + 's" where
  "addPathReversed p q s =
     (if length (elems q) = 0 then Inr s
      else rev_loop p (elems q) (int (length (elems q)) - 1) s)"

subsection \<open>Calls, records and well-formed buffers\<close>

text \<open>
  The calls of the Adder interface as data, an Adder that only records the calls it
  receives, and the replay of a list of calls on any Adder.
\<close>

datatype call =
  StartCall Point | Add1Call Point | Add2Call Point Point | Add3Call Point Point Point

definition Recorder :: "call list Adder" where
  "Recorder =
     \<lparr>Start = (\<lambda>a tr. Inr (tr @ [StartCall a])),
      Add1 = (\<lambda>b tr. Inr (tr @ [Add1Call b])),
      Add2 = (\<lambda>b c tr. Inr (tr @ [Add2Call b c])),
      Add3 = (\<lambda>b c d tr. Inr (tr @ [Add3Call b c d]))\<rparr>"

fun apply_call :: "'s Adder \<Rightarrow> call \<Rightarrow> 's \<Rightarrow> error + 's" where
  "apply_call p (StartCall a) s = Start p a s"
| "apply_call p (Add1Call b) s = Add1 p b s"
| "apply_call p (Add2Call b c) s = Add2 p b c s"
| "apply_call p (Add3Call b c d) s = Add3 p b c d s"

fun replay :: "'s Adder \<Rightarrow> call list \<Rightarrow> 's \<Rightarrow> error + 's" where
  "replay p [] s = Inr s"
| "replay p (c # cs) s = and_then (apply_call p c s) (replay p cs)"

text \<open>The record each call of the Path builder appends, and the buffer of a list of calls.\<close>

fun encode_call :: "call \<Rightarrow> Fix32 list" where
  "encode_call (StartCall a) = [0, X a, Y a, 0]"
| "encode_call (Add1Call b) = [1, X b, Y b, 1]"
| "encode_call (Add2Call b c) = [2, X b, Y b, X c, Y c, 2]"
| "encode_call (Add3Call b c d) = [3, X b, Y b, X c, Y c, X d, Y d, 3]"

definition encode :: "call list \<Rightarrow> Fix32 list" where
  "encode cs = concat (map encode_call cs)"

fun is_segment :: "call \<Rightarrow> bool" where
  "is_segment (StartCall a) = False"
| "is_segment c = True"

text \<open>
  A buffer is \<open>framed\<close> when it splits into records of lengths 4, 4, 6 and 8 for the
  tags 0, 1, 2 and 3, each with the same tag at both ends. It is well-formed when,
  moreover, it is empty or begins with a tag-0 record: then it is a concatenation of
  contours, each one tag-0 record followed by tag-1/2/3 records.
\<close>

fun framed :: "Fix32 list \<Rightarrow> bool" where
  "framed [] = True"
| "framed (t # xs) =
     (if t = 0 \<or> t = 1 then
        (case xs of x # y # t' # rest \<Rightarrow> t' = t \<and> framed rest | _ \<Rightarrow> False)
      else if t = 2 then
        (case xs of bx # by # cx # cy # t' # rest \<Rightarrow> t' = t \<and> framed rest | _ \<Rightarrow> False)
      else if t = 3 then
        (case xs of bx # by # cx # cy # dx # dy # t' # rest \<Rightarrow> t' = t \<and> framed rest
         | _ \<Rightarrow> False)
      else False)"

definition well_formed :: "Fix32 list \<Rightarrow> bool" where
  "well_formed xs = (framed xs \<and> (xs = [] \<or> hd xs = 0))"

text \<open>An operation returns (does not panic) with a result that satisfies \<open>P\<close>.\<close>

definition returns :: "error + 'a \<Rightarrow> ('a \<Rightarrow> bool) \<Rightarrow> bool" where
  "returns m P = (case m of Inl e \<Rightarrow> False | Inr x \<Rightarrow> P x)"

text \<open>
  The calls a reverse traversal makes for a contour that starts at \<open>e\<close> and goes on with
  the given segments: the last segment first, each with its control points in the
  opposite order and ending at the point where the segment began.
\<close>

fun endpoint :: "call \<Rightarrow> Point" where
  "endpoint (StartCall a) = a"
| "endpoint (Add1Call b) = b"
| "endpoint (Add2Call b c) = c"
| "endpoint (Add3Call b c d) = d"

fun mirror :: "Point \<Rightarrow> call \<Rightarrow> call" where
  "mirror e (StartCall a) = StartCall a"
| "mirror e (Add1Call b) = Add1Call e"
| "mirror e (Add2Call b c) = Add2Call b e"
| "mirror e (Add3Call b c d) = Add3Call c b e"

fun reverse_calls :: "Point \<Rightarrow> call list \<Rightarrow> call list" where
  "reverse_calls e [] = []"
| "reverse_calls e (c # cs) = reverse_calls (endpoint c) cs @ [mirror e c]"

text \<open>
  The token \<^verbatim>\<open>String\<close> prints for a record, and the tokens of a list of records
  separated by single spaces.
\<close>

fun token :: "call \<Rightarrow> string" where
  "token (StartCall a) = ''S0'' @ Sprint [X a, Y a]"
| "token (Add1Call b) = ''A1'' @ Sprint [X b, Y b]"
| "token (Add2Call b c) = ''A2'' @ Sprint [X b, Y b, X c, Y c]"
| "token (Add3Call b c d) = ''A3'' @ Sprint [X b, Y b, X c, Y c, X d, Y d]"

fun join_tokens :: "call list \<Rightarrow> string" where
  "join_tokens [] = []"
| "join_tokens (c # cs) = token c @ concat (map (\<lambda>c. '' '' @ token c) cs)"

text \<open>The path after \<open>xs\<close> has been appended: grown by \<open>length xs\<close>, the new elements set.\<close>

definition extend :: "Fix32 list \<Rightarrow> Path \<Rightarrow> Path" where
  "extend xs p = (grow (length xs) p)\<lparr>elems := elems p @ xs\<rparr>"

subsection \<open>Reading a rendering back\<close>

text \<open>
  The number a string of decimal digits denotes, and the rendering of a
  scalar without the sign that \<open>Fix32_String\<close> puts first: they serve to show that the rendering determines the scalar.
\<close>

definition decimal_value :: "string \<Rightarrow> nat" where
  "decimal_value ds = foldl (\<lambda>a c. 10 * a + (of_char c - 48)) 0 ds"

definition after_sign :: "Fix32 \<Rightarrow> string" where
  "after_sign x = fmt_d (sint (quo x 256)) @ '':'' @ fmt_03d (sint (rem x 256))"

subsection \<open>Relations for the rounding bounds\<close>

text \<open>
  \<open>near q a\<close>: \<open>q\<close> is \<open>a / 256\<close> up to the truncation of one division by 256;
  \<open>near2\<close> and \<open>near4\<close> are the same after two and four steps of \<open>Rot45CW\<close>
  (divisors \<open>256\<^sup>2\<close> and \<open>256\<^sup>4\<close>). A point is \<open>small\<close> when both coordinates are at most
  \<open>2\<^sup>3\<^sup>0\<close> in magnitude.
\<close>

definition near :: "int \<Rightarrow> int \<Rightarrow> bool" where
  "near q a = (a - 255 \<le> 256 * q \<and> 256 * q \<le> a + 255)"

definition near2 :: "int \<Rightarrow> int \<Rightarrow> bool" where
  "near2 q a = (a - 157590 \<le> 65536 * q \<and> 65536 * q \<le> a + 157590)"

definition near4 :: "int \<Rightarrow> int \<Rightarrow> bool" where
  "near4 q a = (a - 20653430220 \<le> 4294967296 * q \<and> 4294967296 * q \<le> a + 20653430220)"

definition small :: "Point \<Rightarrow> bool" where
  "small p = (\<bar>sint (X p)\<bar> \<le> 1073741824 \<and> \<bar>sint (Y p)\<bar> \<le> 1073741824)"

section \<open>Negation and quarter turns\<close>

text \<open>
  C8. For every point \<open>p\<close>, negating twice gives \<open>p\<close> back, and two clockwise quarter
  turns are the negation: both operations only swap and negate the 32-bit coordinates,
  so no rounding is involved (and the identities hold under wrap-around as well).
\<close>

theorem Neg_Neg_Rot90CW_twice:
  "Neg (Neg p) = p \<and> Rot90CW (Rot90CW p) = Neg p"
  by (simp add: Neg_def Rot90CW_def)

theorem Neg_Neg_Rot90CW_twice_witness:
  "Neg (Neg \<lparr>X = 256, Y = - 3\<rparr>) = \<lparr>X = 256, Y = - 3\<rparr> \<and>
   Rot90CW (Rot90CW \<lparr>X = 256, Y = - 3\<rparr>) = \<lparr>X = - 256, Y = 3\<rparr>"
  using Neg_Neg_Rot90CW_twice [of "\<lparr>X = 256, Y = - 3\<rparr>"]
  by (simp add: Neg_def)

section \<open>MaxAbs\<close>

lemma sint_minus32:
  fixes a :: Fix32
  assumes "sint a \<noteq> - (2 ^ 31)"
  shows "sint (- a) = - sint a"
proof -
  have "- (2 ^ 31) \<le> sint a" "sint a < 2 ^ 31"
    using sint_ge [of a] sint_lt [of a] by simp_all
  with assms have "- (2 ^ 31) \<le> - sint a" "- sint a < 2 ^ 31" by simp_all
  then have "signed_take_bit 31 (- sint a) = - sint a"
    by (rule signed_take_bit_int_eq_self)
  then show ?thesis by (simp add: sint_word_minus)
qed

lemma sint_abs32:
  fixes a :: Fix32
  assumes "sint a \<noteq> - (2 ^ 31)"
  shows "sint (if a <s 0 then - a else a) = \<bar>sint a\<bar>"
  using assms by (simp add: word_sless_alt sint_minus32)

lemma signed_max_commute:
  fixes x y :: Fix32
  shows "(if x <s y then y else x) = (if y <s x then x else y)"
proof -
  have "x = y" if "\<not> sint x < sint y" "\<not> sint y < sint x"
  proof -
    from that have "sint x = sint y" by simp
    then show ?thesis by (rule signed_word_eqI)
  qed
  then show ?thesis by (auto simp: word_sless_alt)
qed

lemma MaxAbs_commute: "MaxAbs a b = MaxAbs b a"
  unfolding MaxAbs_def Let_def by (rule signed_max_commute)

text \<open>
  C6, as the code has it. For all 24.8 scalars \<open>a\<close> and \<open>b\<close> other than the least
  \<^verbatim>\<open>int32\<close>, \<open>MaxAbs a b\<close> is the larger of the two magnitudes \<open>\<bar>a\<bar>\<close> and \<open>\<bar>b\<bar>\<close>: a
  non-negative value, not the (possibly negative) argument, and on a tie the common
  magnitude. \<open>MaxAbs\<close> is symmetric, and \<open>MaxAbs a a\<close> is \<open>\<bar>a\<bar>\<close>.
\<close>

theorem MaxAbs_max_magnitude:
  assumes "sint a \<noteq> - (2 ^ 31)" and "sint b \<noteq> - (2 ^ 31)"
  shows "sint (MaxAbs a b) = max \<bar>sint a\<bar> \<bar>sint b\<bar> \<and> MaxAbs a b = MaxAbs b a \<and>
         sint (MaxAbs a a) = \<bar>sint a\<bar>"
proof -
  let ?a = "if a <s 0 then - a else a" and ?b = "if b <s 0 then - b else b"
  have a: "sint ?a = \<bar>sint a\<bar>" using assms(1) by (rule sint_abs32)
  have b: "sint ?b = \<bar>sint b\<bar>" using assms(2) by (rule sint_abs32)
  have "MaxAbs a b = (if ?a <s ?b then ?b else ?a)"
    by (simp add: MaxAbs_def Let_def)
  then have "sint (MaxAbs a b) = (if sint ?a < sint ?b then sint ?b else sint ?a)"
    by (simp only: word_sless_alt if_distrib [of sint])
  then have "sint (MaxAbs a b) = max \<bar>sint a\<bar> \<bar>sint b\<bar>"
    unfolding a b by (simp add: max_def)
  moreover have "MaxAbs a a = ?a"
    by (simp add: MaxAbs_def Let_def)
  ultimately show ?thesis
    using a MaxAbs_commute by simp
qed

theorem MaxAbs_max_magnitude_witness:
  "sint (MaxAbs (- 5) 3) = 5 \<and> MaxAbs (- 5) 3 = MaxAbs 3 (- 5) \<and> sint (MaxAbs (- 5) (- 5)) = 5"
  using MaxAbs_max_magnitude [of "- 5" 3] by (simp add: MaxAbs_def word_sless_alt)

text \<open>
  The result is not always one of the two arguments, and a tie does not return the
  second argument: \<open>MaxAbs (-5) 3\<close> is \<open>5\<close>, and \<open>MaxAbs 3 (-3)\<close> is \<open>3\<close>.
\<close>

theorem MaxAbs_returns_argument_counterexample:
  "MaxAbs (- 5) 3 \<noteq> - 5 \<and> MaxAbs (- 5) 3 \<noteq> 3 \<and> MaxAbs 3 (- 3) \<noteq> - 3"
  by (simp add: MaxAbs_def word_sless_alt)

section \<open>Eight eighth-turns\<close>

lemma sint_scast64:
  fixes x :: Fix32
  shows "sint (scast x :: Fix64) = sint x"
  by (simp add: sint_up_scast is_up)

lemma sint32_bounds:
  fixes x :: Fix32
  shows "- (2 ^ 31) \<le> sint x" "sint x < 2 ^ 31"
  using sint_ge [of x] sint_lt [of x] by simp_all

lemma stb63: "- (2 ^ 63) \<le> k \<Longrightarrow> k < 2 ^ 63 \<Longrightarrow> signed_take_bit 63 (k :: int) = k"
  by (rule signed_take_bit_int_eq_self)

lemma sint_diff64:
  fixes x y :: Fix32
  shows "sint ((scast x :: Fix64) - scast y) = sint x - sint y"
  using sint32_bounds [of x] sint32_bounds [of y]
  by (simp add: sint_word_diff sint_scast64 stb63)

lemma sint_sum64:
  fixes x y :: Fix32
  shows "sint ((scast x :: Fix64) + scast y) = sint x + sint y"
  using sint32_bounds [of x] sint32_bounds [of y]
  by (simp add: sint_word_add sint_scast64 stb63)

lemma sint_times181:
  fixes w :: Fix64
  assumes "- (2 ^ 33) \<le> sint w" "sint w < 2 ^ 33"
  shows "sint (w * 181) = sint w * 181"
  using assms by (simp add: sint_word_mult stb63)

lemma narrow_quo:
  fixes w :: Fix64
  shows "sint (ucast (quo w 256) :: Fix32) = signed_take_bit 31 (sint w sdiv 256)"
proof -
  have "(ucast (word_of_int k :: Fix64) :: Fix32) = word_of_int k" for k
    by (rule ucast_down_wi) (simp add: is_down)
  then show ?thesis by (simp add: quo_def sint_sbintrunc')
qed

lemma sint_Rot45CW:
  "sint (X (Rot45CW p)) = signed_take_bit 31 ((sint (X p) - sint (Y p)) * 181 sdiv 256)"
  "sint (Y (Rot45CW p)) = signed_take_bit 31 ((sint (X p) + sint (Y p)) * 181 sdiv 256)"
proof -
  have d: "sint ((scast (X p) :: Fix64) - scast (Y p)) = sint (X p) - sint (Y p)"
    by (rule sint_diff64)
  have s: "sint ((scast (X p) :: Fix64) + scast (Y p)) = sint (X p) + sint (Y p)"
    by (rule sint_sum64)
  have "sint (((scast (X p) :: Fix64) - scast (Y p)) * 181) = (sint (X p) - sint (Y p)) * 181"
    using sint32_bounds [of "X p"] sint32_bounds [of "Y p"]
    by (subst sint_times181) (simp_all add: d)
  moreover have "sint (((scast (X p) :: Fix64) + scast (Y p)) * 181) = (sint (X p) + sint (Y p)) * 181"
    using sint32_bounds [of "X p"] sint32_bounds [of "Y p"]
    by (subst sint_times181) (simp_all add: s)
  ultimately show
    "sint (X (Rot45CW p)) = signed_take_bit 31 ((sint (X p) - sint (Y p)) * 181 sdiv 256)"
    "sint (Y (Rot45CW p)) = signed_take_bit 31 ((sint (X p) + sint (Y p)) * 181 sdiv 256)"
    by (simp_all add: Rot45CW_def Let_def narrow_quo)
qed

lemma trunc256:
  fixes a :: int
  shows "a - 255 \<le> 256 * (a sdiv 256) \<and> 256 * (a sdiv 256) \<le> a + 255"
proof -
  have "a sdiv 256 * 256 + a smod 256 = a" by (rule sdiv_mult_smod_eq)
  moreover have "a smod 256 \<in> {- \<bar>256\<bar> + 1..\<bar>256\<bar> - 1}" by (rule smod_int_range) simp
  ultimately show ?thesis by auto
qed

lemma stb31:
  "- 2147483648 \<le> k \<Longrightarrow> k < 2147483648 \<Longrightarrow> signed_take_bit 31 (k :: int) = k"
  by (rule signed_take_bit_int_eq_self) simp_all

lemma sint_of_int32:
  "- 2147483648 \<le> k \<Longrightarrow> k < 2147483648 \<Longrightarrow> sint (word_of_int k :: Fix32) = k"
  by (simp add: sint_sbintrunc' stb31)

lemma quo256_exact:
  fixes w :: Fix32
  shows "sint (quo w 256) = sint w sdiv 256"
proof -
  have t: "sint w - 255 \<le> 256 * (sint w sdiv 256) \<and> 256 * (sint w sdiv 256) \<le> sint w + 255"
    by (rule trunc256)
  have "- 2147483648 \<le> sint w sdiv 256" using t sint32_bounds [of w] by simp
  moreover have "sint w sdiv 256 < 2147483648" using t sint32_bounds [of w] by simp
  ultimately show ?thesis by (simp add: quo_def sint_of_int32)
qed

lemma near_fits:
  fixes a d :: int
  assumes "a - 255 \<le> 256 * d \<and> 256 * d \<le> a + 255" and "\<bar>a\<bar> \<le> 181 * 3000000000"
  shows "signed_take_bit 31 d = d"
proof -
  have "- 2147483648 \<le> d" using assms by linarith
  moreover have "d < 2147483648" using assms by linarith
  ultimately show ?thesis by (rule stb31)
qed

lemma Rot45CW_near:
  assumes "\<bar>sint (X p)\<bar> + \<bar>sint (Y p)\<bar> \<le> 3000000000"
  shows "near (sint (X (Rot45CW p))) (181 * sint (X p) - 181 * sint (Y p))"
    and "near (sint (Y (Rot45CW p))) (181 * sint (X p) + 181 * sint (Y p))"
proof -
  let ?x = "sint (X p)" and ?y = "sint (Y p)"
  let ?d = "(181 * ?x - 181 * ?y) sdiv 256" and ?s = "(181 * ?x + 181 * ?y) sdiv 256"
  have ed: "(?x - ?y) * 181 = 181 * ?x - 181 * ?y" and es: "(?x + ?y) * 181 = 181 * ?x + 181 * ?y"
    by (simp_all add: algebra_simps)
  have X: "sint (X (Rot45CW p)) = signed_take_bit 31 ?d"
    and Y: "sint (Y (Rot45CW p)) = signed_take_bit 31 ?s"
    unfolding sint_Rot45CW ed es by (rule refl)+
  have td: "181 * ?x - 181 * ?y - 255 \<le> 256 * ?d \<and> 256 * ?d \<le> 181 * ?x - 181 * ?y + 255"
    by (rule trunc256)
  have ts: "181 * ?x + 181 * ?y - 255 \<le> 256 * ?s \<and> 256 * ?s \<le> 181 * ?x + 181 * ?y + 255"
    by (rule trunc256)
  have "\<bar>181 * ?x - 181 * ?y\<bar> \<le> 181 * 3000000000" using assms by linarith
  with td have d: "signed_take_bit 31 ?d = ?d" by (rule near_fits)
  have "\<bar>181 * ?x + 181 * ?y\<bar> \<le> 181 * 3000000000" using assms by linarith
  with ts have s: "signed_take_bit 31 ?s = ?s" by (rule near_fits)
  show "near (sint (X (Rot45CW p))) (181 * ?x - 181 * ?y)"
    unfolding near_def X d by (rule td)
  show "near (sint (Y (Rot45CW p))) (181 * ?x + 181 * ?y)"
    unfolding near_def Y s by (rule ts)
qed

lemma two_steps:
  fixes x0 y0 :: int
  assumes "near x1 (181 * x0 - 181 * y0)" "near y1 (181 * x0 + 181 * y0)"
      and "near x2 (181 * x1 - 181 * y1)" "near y2 (181 * x1 + 181 * y1)"
  shows "near2 x2 (- 65522 * y0)" "near2 y2 (65522 * x0)"
  using assms unfolding near_def near2_def by (intro conjI; linarith)+

lemma four_steps:
  fixes x0 y0 :: int
  assumes "near2 x2 (- 65522 * y0)" "near2 y2 (65522 * x0)"
      and "near2 x4 (- 65522 * y2)" "near2 y4 (65522 * x2)"
  shows "near4 x4 (- 4293132484 * x0)" "near4 y4 (- 4293132484 * y0)"
  using assms unfolding near2_def near4_def by (intro conjI; linarith)+

lemma eight_steps:
  fixes x0 :: int
  assumes "near4 x4 (- 4293132484 * x0)" "near4 x8 (- 4293132484 * x4)"
  shows "1024 * \<bar>x8 - x0\<bar> \<le> \<bar>x0\<bar> + 10240"
proof -
  have "1024 * x8 - 1024 * x0 \<le> \<bar>x0\<bar> + 10240" "1024 * x0 - 1024 * x8 \<le> \<bar>x0\<bar> + 10240"
    using assms unfolding near4_def by linarith+
  moreover have "1024 * \<bar>x8 - x0\<bar> = \<bar>1024 * x8 - 1024 * x0\<bar>"
    by (simp add: abs_if)
  ultimately show ?thesis by linarith
qed

lemma near2_small_neg:
  fixes x y :: int
  assumes "near2 x (- 65522 * y)" "\<bar>y\<bar> \<le> 1073741824"
  shows "\<bar>x\<bar> \<le> 1073741824"
  using assms unfolding near2_def by linarith

lemma near2_small_pos:
  fixes x y :: int
  assumes "near2 x (65522 * y)" "\<bar>y\<bar> \<le> 1073741824"
  shows "\<bar>x\<bar> \<le> 1073741824"
  using assms unfolding near2_def by linarith

lemma quarter_turn:
  assumes "small p"
  shows "near2 (sint (X (Rot45CW (Rot45CW p)))) (- 65522 * sint (Y p))"
    and "near2 (sint (Y (Rot45CW (Rot45CW p)))) (65522 * sint (X p))"
    and "small (Rot45CW (Rot45CW p))"
proof -
  let ?p1 = "Rot45CW p"
  have b0: "\<bar>sint (X p)\<bar> + \<bar>sint (Y p)\<bar> \<le> 3000000000"
    using assms unfolding small_def by linarith
  note n1 = Rot45CW_near [OF b0]
  have b1: "\<bar>sint (X ?p1)\<bar> + \<bar>sint (Y ?p1)\<bar> \<le> 3000000000"
    using n1 assms unfolding small_def near_def by linarith
  note n2 = Rot45CW_near [OF b1]
  show x: "near2 (sint (X (Rot45CW ?p1))) (- 65522 * sint (Y p))"
    using n1 n2 by (rule two_steps)
  show y: "near2 (sint (Y (Rot45CW ?p1))) (65522 * sint (X p))"
    using n1 n2 by (rule two_steps)
  have sx: "\<bar>sint (X p)\<bar> \<le> 1073741824" and sy: "\<bar>sint (Y p)\<bar> \<le> 1073741824"
    using assms by (simp_all add: small_def)
  have "\<bar>sint (X (Rot45CW ?p1))\<bar> \<le> 1073741824"
    using x sy by (rule near2_small_neg)
  moreover have "\<bar>sint (Y (Rot45CW ?p1))\<bar> \<le> 1073741824"
    using y sx by (rule near2_small_pos)
  ultimately show "small (Rot45CW ?p1)" by (simp add: small_def)
qed

text \<open>
  C7, as the code has it. For every point \<open>p\<close> whose coordinates are at most \<open>2\<^sup>3\<^sup>0\<close> in
  magnitude, applying \<open>Rot45CW\<close> eight times returns a point whose coordinates differ
  from those of \<open>p\<close> by at most \<open>\<bar>c\<bar> / 1024 + 10\<close> sub-units for the coordinate \<open>c\<close>: every step
  scales by \<open>181 * sqrt 2 / 256 < 1\<close> and truncates towards zero.
\<close>

theorem Rot45CW_eight_times:
  assumes "\<bar>sint (X p)\<bar> \<le> 2 ^ 30" and "\<bar>sint (Y p)\<bar> \<le> 2 ^ 30"
  shows "1024 * \<bar>sint (X ((Rot45CW ^^ 8) p)) - sint (X p)\<bar> \<le> \<bar>sint (X p)\<bar> + 10240 \<and>
         1024 * \<bar>sint (Y ((Rot45CW ^^ 8) p)) - sint (Y p)\<bar> \<le> \<bar>sint (Y p)\<bar> + 10240"
proof -
  let ?p2 = "Rot45CW (Rot45CW p)"
  let ?p4 = "Rot45CW (Rot45CW ?p2)"
  let ?p6 = "Rot45CW (Rot45CW ?p4)"
  let ?p8 = "Rot45CW (Rot45CW ?p6)"
  have s0: "small p" using assms by (simp add: small_def)
  note q2 = quarter_turn [OF s0]
  note q4 = quarter_turn [OF q2(3)]
  note q6 = quarter_turn [OF q4(3)]
  note q8 = quarter_turn [OF q6(3)]
  note h4 = four_steps [OF q2(1) q2(2) q4(1) q4(2)]
  note h8 = four_steps [OF q6(1) q6(2) q8(1) q8(2)]
  have "1024 * \<bar>sint (X ?p8) - sint (X p)\<bar> \<le> \<bar>sint (X p)\<bar> + 10240"
    using h4(1) h8(1) by (rule eight_steps)
  moreover have "1024 * \<bar>sint (Y ?p8) - sint (Y p)\<bar> \<le> \<bar>sint (Y p)\<bar> + 10240"
    using h4(2) h8(2) by (rule eight_steps)
  moreover have "(Rot45CW ^^ 8) p = ?p8"
    by (simp add: eval_nat_numeral)
  ultimately show ?thesis by simp
qed

lemma Rot45CW_from_1000000:
  "Rot45CW \<lparr>X = 1000000, Y = 0\<rparr> = \<lparr>X = 707031, Y = 707031\<rparr>"
  "Rot45CW \<lparr>X = 707031, Y = 707031\<rparr> = \<lparr>X = 0, Y = 999786\<rparr>"
  "Rot45CW \<lparr>X = 0, Y = 999786\<rparr> = \<lparr>X = - 706879, Y = 706879\<rparr>"
  "Rot45CW \<lparr>X = - 706879, Y = 706879\<rparr> = \<lparr>X = - 999571, Y = 0\<rparr>"
  "Rot45CW \<lparr>X = - 999571, Y = 0\<rparr> = \<lparr>X = - 706727, Y = - 706727\<rparr>"
  "Rot45CW \<lparr>X = - 706727, Y = - 706727\<rparr> = \<lparr>X = 0, Y = - 999356\<rparr>"
  "Rot45CW \<lparr>X = 0, Y = - 999356\<rparr> = \<lparr>X = 706575, Y = - 706575\<rparr>"
  "Rot45CW \<lparr>X = 706575, Y = - 706575\<rparr> = \<lparr>X = 999141, Y = 0\<rparr>"
  by (simp_all add: Rot45CW_def quo_def)

lemma Rot45CW_from_256:
  "Rot45CW \<lparr>X = 256, Y = 0\<rparr> = \<lparr>X = 181, Y = 181\<rparr>"
  "Rot45CW \<lparr>X = 181, Y = 181\<rparr> = \<lparr>X = 0, Y = 255\<rparr>"
  "Rot45CW \<lparr>X = 0, Y = 255\<rparr> = \<lparr>X = - 180, Y = 180\<rparr>"
  "Rot45CW \<lparr>X = - 180, Y = 180\<rparr> = \<lparr>X = - 254, Y = 0\<rparr>"
  "Rot45CW \<lparr>X = - 254, Y = 0\<rparr> = \<lparr>X = - 179, Y = - 179\<rparr>"
  "Rot45CW \<lparr>X = - 179, Y = - 179\<rparr> = \<lparr>X = 0, Y = - 253\<rparr>"
  "Rot45CW \<lparr>X = 0, Y = - 253\<rparr> = \<lparr>X = 178, Y = - 178\<rparr>"
  "Rot45CW \<lparr>X = 178, Y = - 178\<rparr> = \<lparr>X = 251, Y = 0\<rparr>"
  by (simp_all add: Rot45CW_def quo_def)

theorem Rot45CW_eight_times_witness:
  "(Rot45CW ^^ 8) \<lparr>X = 256, Y = 0\<rparr> = \<lparr>X = 251, Y = 0\<rparr> \<and>
   1024 * \<bar>sint (X ((Rot45CW ^^ 8) \<lparr>X = 256, Y = 0\<rparr>)) - 256\<bar> \<le> 256 + 10240"
  using Rot45CW_eight_times [of "\<lparr>X = 256, Y = 0\<rparr>"]
  by (simp add: eval_nat_numeral Rot45CW_from_256)

text \<open>
  The deviation is not bounded by one unit. One unit of the 24.8 format is 256 sub-units;
  eight steps take \<open>(1000000, 0)\<close> to \<open>(999141, 0)\<close>, a deviation of 859 sub-units, more
  than three units.
\<close>

theorem Rot45CW_eight_times_counterexample:
  "(Rot45CW ^^ 8) \<lparr>X = 1000000, Y = 0\<rparr> = \<lparr>X = 999141, Y = 0\<rparr> \<and>
   \<not> \<bar>sint (X ((Rot45CW ^^ 8) \<lparr>X = 1000000, Y = 0\<rparr>)) - sint (X \<lparr>X = 1000000, Y = 0\<rparr>)\<bar> \<le> 256"
  by (simp add: eval_nat_numeral Rot45CW_from_1000000)

section \<open>Scaling a point\<close>

text \<open>
  Where the product of the two 32-bit values fits in 32 bits, \<open>Mul\<close> is the exact
  product divided by 256, truncated towards zero.
\<close>

lemma Mul_exact:
  assumes "- (2 ^ 31) \<le> sint (X p) * sint k" and "sint (X p) * sint k < 2 ^ 31"
    and "- (2 ^ 31) \<le> sint (Y p) * sint k" and "sint (Y p) * sint k < 2 ^ 31"
  shows "sint (X (Mul p k)) = sint (X p) * sint k sdiv 256 \<and>
         sint (Y (Mul p k)) = sint (Y p) * sint k sdiv 256"
proof -
  have "sint (X p * k) = sint (X p) * sint k"
    using assms(1,2) by (simp add: sint_word_mult signed_take_bit_int_eq_self)
  moreover have "sint (Y p * k) = sint (Y p) * sint k"
    using assms(3,4) by (simp add: sint_word_mult signed_take_bit_int_eq_self)
  ultimately show ?thesis by (simp add: Mul_def quo256_exact)
qed

text \<open>
  C5. \<open>Mul\<close> forms the product of two 32-bit values in 32 bits, so it wraps before the
  division: scaling the point \<open>(65536, 256)\<close> by \<open>65536\<close> gives \<open>(0, 65536)\<close>, whereas the
  product \<open>65536 * 65536\<close> formed without wrap-around and divided by 256 is \<open>16777216\<close>,
  which a 24.8 scalar does hold.
\<close>

theorem Mul_product_wraps:
  "Mul \<lparr>X = 65536, Y = 256\<rparr> 65536 = \<lparr>X = 0, Y = 65536\<rparr> \<and>
   (word_of_int (sint (65536 :: Fix32) * sint (65536 :: Fix32) sdiv 256) :: Fix32) = 16777216"
  by (simp add: Mul_def quo_def)

section \<open>Building paths\<close>

lemma elems_extend [simp]: "elems (extend xs p) = elems p @ xs"
  by (simp add: extend_def)

lemma extend_eq: "length xs = n \<Longrightarrow> extend xs p = (grow n p)\<lparr>elems := elems p @ xs\<rparr>"
  by (auto simp: extend_def)

lemma grow_elems: "\<exists>ext. length ext = n \<and> elems (grow n p) = elems p @ ext"
  by (auto simp: grow_def Let_def)

lemma and_then_Inr [simp]: "and_then (Inr x) f = f x"
  by (simp add: and_then_def)

lemma and_then_Inl [simp]: "and_then (Inl e) f = Inl e"
  by (simp add: and_then_def)

lemma Path_Start_extend: "Path_Start a p = Inr (extend [0, X a, Y a, 0] p)"
proof -
  obtain ext where l: "length ext = 4" and e: "elems (grow 4 p) = elems p @ ext"
    using grow_elems by blast
  from l obtain e0 e1 e2 e3 where ext: "ext = [e0, e1, e2, e3]"
    by (auto simp: length_Suc_conv eval_nat_numeral)
  show ?thesis
    by (simp add: Path_Start_def Let_def store_def e ext list_update_append extend_eq [of _ 4])
qed

lemma Path_Add1_extend: "Path_Add1 b p = Inr (extend [1, X b, Y b, 1] p)"
proof -
  obtain ext where l: "length ext = 4" and e: "elems (grow 4 p) = elems p @ ext"
    using grow_elems by blast
  from l obtain e0 e1 e2 e3 where ext: "ext = [e0, e1, e2, e3]"
    by (auto simp: length_Suc_conv eval_nat_numeral)
  show ?thesis
    by (simp add: Path_Add1_def Let_def store_def e ext list_update_append extend_eq [of _ 4])
qed

lemma Path_Add2_extend: "Path_Add2 b c p = Inr (extend [2, X b, Y b, X c, Y c, 2] p)"
proof -
  obtain ext where l: "length ext = 6" and e: "elems (grow 6 p) = elems p @ ext"
    using grow_elems by blast
  from l obtain e0 e1 e2 e3 e4 e5 where ext: "ext = [e0, e1, e2, e3, e4, e5]"
    by (auto simp: length_Suc_conv eval_nat_numeral)
  show ?thesis
    by (simp add: Path_Add2_def Let_def store_def e ext list_update_append extend_eq [of _ 6])
qed

lemma Path_Add3_extend:
  "Path_Add3 b c d p = Inr (extend [3, X b, Y b, X c, Y c, X d, Y d, 3] p)"
proof -
  obtain ext where l: "length ext = 8" and e: "elems (grow 8 p) = elems p @ ext"
    using grow_elems by blast
  from l obtain e0 e1 e2 e3 e4 e5 e6 e7 where ext: "ext = [e0, e1, e2, e3, e4, e5, e6, e7]"
    by (auto simp: length_Suc_conv eval_nat_numeral)
  show ?thesis
    by (simp add: Path_Add3_def Let_def store_def e ext list_update_append extend_eq [of _ 8])
qed

lemma AddPath_extend: "AddPath q p = Inr (extend (elems q) p)"
proof -
  obtain ext where l: "length ext = length (elems q)"
    and e: "elems (grow (length (elems q)) p) = elems p @ ext"
    using grow_elems by blast
  show ?thesis
    by (simp add: AddPath_def Let_def copy_into_def extend_def e l)
qed


lemma encode_Nil [simp]: "encode [] = []"
  by (simp add: encode_def)

lemma encode_Cons [simp]: "encode (c # cs) = encode_call c @ encode cs"
  by (simp add: encode_def)

lemma encode_append [simp]: "encode (cs @ ds) = encode cs @ encode ds"
  by (simp add: encode_def)

lemma framed_encode_call [simp]: "framed (encode_call c @ xs) = framed xs"
  by (cases c) simp_all

lemma framed_encode: "framed (encode cs)"
  by (induction cs) simp_all

lemma framed_decode: "framed xs \<Longrightarrow> \<exists>cs. xs = encode cs"
proof (induction xs rule: framed.induct)
  case 1
  have "[] = encode []" by simp
  then show ?case by blast
next
  case (2 t xs)
  consider "t = 0" | "t = 1" | "t = 2" | "t = 3"
    using "2.prems" by (auto split: if_splits)
  then show ?case
  proof cases
    case 1
    with "2.prems" obtain x y rest where xs: "xs = x # y # 0 # rest" and f: "framed rest"
      by (auto split: list.splits)
    from "2.IH"(1) [of x "y # 0 # rest" y "0 # rest" 0 rest] 1 xs f
    obtain cs where "rest = encode cs" by auto
    with 1 xs have "t # xs = encode (StartCall (Pt x y) # cs)" by (simp add: Pt_def)
    then show ?thesis by blast
  next
    case 2
    with "2.prems" obtain x y rest where xs: "xs = x # y # 1 # rest" and f: "framed rest"
      by (auto split: list.splits)
    from "2.IH"(1) [of x "y # 1 # rest" y "1 # rest" 1 rest] 2 xs f
    obtain cs where "rest = encode cs" by auto
    with 2 xs have "t # xs = encode (Add1Call (Pt x y) # cs)" by (simp add: Pt_def)
    then show ?thesis by blast
  next
    case 3
    with "2.prems" obtain bx by' cx cy rest
      where xs: "xs = bx # by' # cx # cy # 2 # rest" and f: "framed rest"
      by (auto split: list.splits)
    from "2.IH"(2) [of bx "by' # cx # cy # 2 # rest" by' "cx # cy # 2 # rest" cx
        "cy # 2 # rest" cy "2 # rest" 2 rest] 3 xs f
    obtain cs where "rest = encode cs" by auto
    with 3 xs have "t # xs = encode (Add2Call (Pt bx by') (Pt cx cy) # cs)" by (simp add: Pt_def)
    then show ?thesis by blast
  next
    case 4
    with "2.prems" obtain bx by' cx cy dx dy rest
      where xs: "xs = bx # by' # cx # cy # dx # dy # 3 # rest" and f: "framed rest"
      by (auto split: list.splits)
    from "2.IH"(3) [of bx "by' # cx # cy # dx # dy # 3 # rest" by' "cx # cy # dx # dy # 3 # rest"
        cx "cy # dx # dy # 3 # rest" cy "dx # dy # 3 # rest" dx "dy # 3 # rest" dy "3 # rest" 3 rest]
      4 xs f
    obtain cs where "rest = encode cs" by auto
    with 4 xs have "t # xs = encode (Add3Call (Pt bx by') (Pt cx cy) (Pt dx dy) # cs)"
      by (simp add: Pt_def)
    then show ?thesis by blast
  qed
qed

lemma framed_iff: "framed xs \<longleftrightarrow> (\<exists>cs. xs = encode cs)"
  using framed_decode framed_encode by blast

lemma framed_append: "framed xs \<Longrightarrow> framed ys \<Longrightarrow> framed (xs @ ys)"
proof -
  assume "framed xs" "framed ys"
  then obtain cs ds where "xs = encode cs" "ys = encode ds"
    using framed_decode by blast
  then have "xs @ ys = encode (cs @ ds)" by simp
  then show ?thesis by (simp only: framed_encode)
qed

lemma well_formed_append:
  assumes "well_formed xs" and "framed ys" and "xs = [] \<longrightarrow> ys = [] \<or> hd ys = 0"
  shows "well_formed (xs @ ys)"
proof -
  have "framed (xs @ ys)" using assms by (simp add: well_formed_def framed_append)
  moreover have "xs @ ys = [] \<or> hd (xs @ ys) = 0"
    using assms by (cases xs) (simp_all add: well_formed_def)
  ultimately show ?thesis by (simp only: well_formed_def)
qed


text \<open>
  C2. Well-formedness is an invariant of the builder. From a well-formed buffer,
  \<open>Start\<close> returns a well-formed buffer, 4 elements longer; once a contour has been
  started (the buffer is not empty), \<open>Add1\<close>, \<open>Add2\<close> and \<open>Add3\<close> return well-formed
  buffers, 4, 6 and 8 elements longer, each with its record framed by its tag;
  \<open>Clear\<close> gives the empty, well-formed buffer; and \<open>AddPath\<close> of a well-formed path
  returns the concatenation, which is well-formed. None of them panics.
\<close>

theorem builder_keeps_well_formed:
  assumes "well_formed (elems p)"
  shows "returns (Path_Start a p)
           (\<lambda>r. well_formed (elems r) \<and> elems r = elems p @ [0, X a, Y a, 0] \<and>
                length (elems r) = length (elems p) + 4) \<and>
         (elems p \<noteq> [] \<longrightarrow>
          returns (Path_Add1 b p)
            (\<lambda>r. well_formed (elems r) \<and> elems r = elems p @ [1, X b, Y b, 1] \<and>
                 length (elems r) = length (elems p) + 4) \<and>
          returns (Path_Add2 b c p)
            (\<lambda>r. well_formed (elems r) \<and> elems r = elems p @ [2, X b, Y b, X c, Y c, 2] \<and>
                 length (elems r) = length (elems p) + 6) \<and>
          returns (Path_Add3 b c d p)
            (\<lambda>r. well_formed (elems r) \<and>
                 elems r = elems p @ [3, X b, Y b, X c, Y c, X d, Y d, 3] \<and>
                 length (elems r) = length (elems p) + 8)) \<and>
         well_formed (elems (Clear p)) \<and>
         (well_formed (elems q) \<longrightarrow>
          returns (AddPath q p) (\<lambda>r. well_formed (elems r) \<and> elems r = elems p @ elems q))"
proof -
  have start: "well_formed (elems p @ [0, X a, Y a, 0])"
    using assms by (rule well_formed_append) simp_all
  have seg: "well_formed (elems p @ encode_call s)" if "elems p \<noteq> []" for s
    using assms
  proof (rule well_formed_append)
    show "framed (encode_call s)" using framed_encode_call [of s "[]"] by simp
    show "elems p = [] \<longrightarrow> encode_call s = [] \<or> hd (encode_call s) = 0" using that by simp
  qed
  have add: "well_formed (elems p @ elems q)" if "well_formed (elems q)"
    using assms
  proof (rule well_formed_append)
    show "framed (elems q)" using that by (simp add: well_formed_def)
    show "elems p = [] \<longrightarrow> elems q = [] \<or> hd (elems q) = 0"
      using that by (simp add: well_formed_def)
  qed
  have clear: "well_formed (elems (Clear p))"
    by (simp add: Clear_def well_formed_def)
  show ?thesis
    using start seg [of "Add1Call b"] seg [of "Add2Call b c"] seg [of "Add3Call b c d"] add clear
    by (simp add: returns_def Path_Start_extend Path_Add1_extend Path_Add2_extend
        Path_Add3_extend AddPath_extend)
qed

theorem builder_keeps_well_formed_witness:
  "well_formed [0, 5, 6, 0] \<and>
   returns (Path_Add2 \<lparr>X = 1, Y = 2\<rparr> \<lparr>X = 3, Y = 4\<rparr> \<lparr>elems = [0, 5, 6, 0], spare = [9]\<rparr>)
     (\<lambda>r. well_formed (elems r) \<and> elems r = [0, 5, 6, 0, 2, 1, 2, 3, 4, 2] \<and>
          length (elems r) = 10) \<and>
   returns (AddPath \<lparr>elems = [0, 7, 8, 0], spare = []\<rparr> \<lparr>elems = [0, 5, 6, 0], spare = [9]\<rparr>)
     (\<lambda>r. well_formed (elems r) \<and> elems r = [0, 5, 6, 0, 0, 7, 8, 0])"
proof -
  have wf: "well_formed (elems \<lparr>elems = [0, 5, 6, 0], spare = [9]\<rparr>)"
    and wq: "well_formed (elems \<lparr>elems = [0, 7, 8, 0], spare = []\<rparr>)"
    by (simp_all add: well_formed_def)
  show ?thesis
    using wf wq builder_keeps_well_formed [OF wf, where a = "\<lparr>X = 0, Y = 0\<rparr>"
        and b = "\<lparr>X = 1, Y = 2\<rparr>" and c = "\<lparr>X = 3, Y = 4\<rparr>" and d = "\<lparr>X = 0, Y = 0\<rparr>"
        and q = "\<lparr>elems = [0, 7, 8, 0], spare = []\<rparr>"]
    by simp
qed

text \<open>
  C10. \<open>Add1\<close>, \<open>Add2\<close> and \<open>Add3\<close> on an empty path (whatever its spare capacity
  holds) do not panic: each appends its full record, and the buffer then begins with
  a tag other than 0, so it is not well-formed. On any path at all they append their
  record without a check that a contour has been started.
\<close>

theorem AddN_before_Start:
  "returns (Path_Add1 b \<lparr>elems = [], spare = sp\<rparr>)
     (\<lambda>r. elems r = [1, X b, Y b, 1] \<and> hd (elems r) \<noteq> 0 \<and> \<not> well_formed (elems r)) \<and>
   returns (Path_Add2 b c \<lparr>elems = [], spare = sp\<rparr>)
     (\<lambda>r. elems r = [2, X b, Y b, X c, Y c, 2] \<and> hd (elems r) \<noteq> 0 \<and> \<not> well_formed (elems r)) \<and>
   returns (Path_Add3 b c d \<lparr>elems = [], spare = sp\<rparr>)
     (\<lambda>r. elems r = [3, X b, Y b, X c, Y c, X d, Y d, 3] \<and> hd (elems r) \<noteq> 0 \<and>
          \<not> well_formed (elems r)) \<and>
   returns (Path_Add1 b p) (\<lambda>r. elems r = elems p @ [1, X b, Y b, 1]) \<and>
   returns (Path_Add2 b c p) (\<lambda>r. elems r = elems p @ [2, X b, Y b, X c, Y c, 2]) \<and>
   returns (Path_Add3 b c d p) (\<lambda>r. elems r = elems p @ [3, X b, Y b, X c, Y c, X d, Y d, 3])"
  by (simp add: returns_def Path_Add1_extend Path_Add2_extend Path_Add3_extend well_formed_def)

theorem AddN_before_Start_witness:
  "returns (Path_Add1 \<lparr>X = 7, Y = 8\<rparr> \<lparr>elems = [], spare = [5, 5]\<rparr>)
     (\<lambda>r. elems r = [1, 7, 8, 1] \<and> hd (elems r) \<noteq> 0 \<and> \<not> well_formed (elems r))"
  using AddN_before_Start [where b = "\<lparr>X = 7, Y = 8\<rparr>" and sp = "[5, 5]"
      and c = "\<lparr>X = 0, Y = 0\<rparr>" and d = "\<lparr>X = 0, Y = 0\<rparr>" and p = "\<lparr>elems = [], spare = []\<rparr>"]
  by simp

section \<open>The diagnostic string\<close>

declare String_loop.simps [simp del] rev_loop.simps [simp del]

lemma String_loop_step:
  assumes "elems p = pre @ encode_call c @ rest"
  shows "String_loop p (length pre) s =
         String_loop p (length pre + length (encode_call c))
           ((if pre = [] then s else s @ '' '') @ token c)"
proof (cases c)
  case (StartCall a)
  then have len: "length (encode_call c) = 4" by simp
  show ?thesis unfolding len using assms StartCall
    by (subst String_loop.simps) (simp add: slice_def nth_append Let_def)
next
  case (Add1Call b)
  then have len: "length (encode_call c) = 4" by simp
  show ?thesis unfolding len using assms Add1Call
    by (subst String_loop.simps) (simp add: slice_def nth_append Let_def)
next
  case (Add2Call b c')
  then have len: "length (encode_call c) = 6" by simp
  show ?thesis unfolding len using assms Add2Call
    by (subst String_loop.simps) (simp add: slice_def nth_append Let_def)
next
  case (Add3Call b c' d)
  then have len: "length (encode_call c) = 8" by simp
  show ?thesis unfolding len using assms Add3Call
    by (subst String_loop.simps) (simp add: slice_def nth_append Let_def)
qed

lemma String_loop_encode:
  assumes "elems p = pre @ encode cs" and "pre \<noteq> []"
  shows "String_loop p (length pre) s = Inr (s @ concat (map (\<lambda>c. '' '' @ token c) cs))"
  using assms
proof (induction cs arbitrary: pre s)
  case Nil
  then show ?case by (subst String_loop.simps) simp
next
  case (Cons c cs)
  from Cons.prems have e: "elems p = pre @ encode_call c @ encode cs" by simp
  have e': "elems p = (pre @ encode_call c) @ encode cs" using e by simp
  have "String_loop p (length pre) s =
        String_loop p (length (pre @ encode_call c)) (s @ '' '' @ token c)"
    using String_loop_step [OF e, of s] Cons.prems(2) by simp
  also have "\<dots> = Inr ((s @ '' '' @ token c) @ concat (map (\<lambda>c. '' '' @ token c) cs))"
    using e' by (rule Cons.IH) (simp add: Cons.prems(2))
  finally show ?case by simp
qed

lemma Path_String_encode:
  assumes "elems p = encode cs"
  shows "Path_String p = Inr (join_tokens cs)"
proof (cases cs)
  case Nil
  with assms show ?thesis
    unfolding Path_String_def by (subst String_loop.simps) simp
next
  case (Cons c cs')
  with assms have e: "elems p = [] @ encode_call c @ encode cs'" by simp
  have ne: "encode_call c \<noteq> []" by (cases c) simp_all
  have e': "elems p = encode_call c @ encode cs'" using e by simp
  have "String_loop p 0 [] = String_loop p (length (encode_call c)) (token c)"
    using String_loop_step [OF e, of "[]"] by simp
  also have "\<dots> = Inr (token c @ concat (map (\<lambda>c. '' '' @ token c) cs'))"
    using e' ne by (rule String_loop_encode)
  finally show ?thesis by (simp add: Path_String_def Cons)
qed

lemma String_loop_bad_tag:
  assumes "i < length (elems p)" and "elems p ! i \<notin> {0, 1, 2, 3}"
  shows "String_loop p i s = Inl BadPath"
  using assms by (subst String_loop.simps) (simp add: Let_def)


text \<open>
  C3. Round trip through the encoding: for all points, the path built from an empty
  one (whatever its spare capacity holds) by \<open>Start a\<close>, \<open>Add1 b\<close>, \<open>Add2 c d\<close>,
  \<open>Add3 e f g\<close> is decoded by \<open>String\<close>, without a panic, into the token \<open>S0\<close> with
  the coordinates of \<open>a\<close>, the token \<open>A1\<close> with those of \<open>b\<close>, the token \<open>A2\<close> with
  those of \<open>c\<close> then \<open>d\<close>, and the token \<open>A3\<close> with those of \<open>e\<close>, \<open>f\<close> then \<open>g\<close>, in
  that order, each coordinate rendered by its own \<open>String\<close> method.
\<close>

theorem String_round_trip:
  "and_then (Path_Start a \<lparr>elems = [], spare = sp\<rparr>) (\<lambda>p.
   and_then (Path_Add1 b p) (\<lambda>p.
   and_then (Path_Add2 c d p) (\<lambda>p.
   and_then (Path_Add3 e f g p) Path_String))) =
   Inr (''S0['' @ Fix32_String (X a) @ '' '' @ Fix32_String (Y a) @
        ''] A1['' @ Fix32_String (X b) @ '' '' @ Fix32_String (Y b) @
        ''] A2['' @ Fix32_String (X c) @ '' '' @ Fix32_String (Y c) @ '' '' @
                   Fix32_String (X d) @ '' '' @ Fix32_String (Y d) @
        ''] A3['' @ Fix32_String (X e) @ '' '' @ Fix32_String (Y e) @ '' '' @
                   Fix32_String (X f) @ '' '' @ Fix32_String (Y f) @ '' '' @
                   Fix32_String (X g) @ '' '' @ Fix32_String (Y g) @ '']'')"
proof -
  let ?cs = "[StartCall a, Add1Call b, Add2Call c d, Add3Call e f g]"
  let ?p = "extend [3, X e, Y e, X f, Y f, X g, Y g, 3]
             (extend [2, X c, Y c, X d, Y d, 2]
               (extend [1, X b, Y b, 1]
                 (extend [0, X a, Y a, 0] \<lparr>elems = [], spare = sp\<rparr>)))"
  have "elems ?p = encode ?cs" by simp
  then have "Path_String ?p = Inr (join_tokens ?cs)" by (rule Path_String_encode)
  then show ?thesis
    by (simp add: Path_Start_extend Path_Add1_extend Path_Add2_extend Path_Add3_extend
        Sprint_def)
qed

lemma decimal_digit: "n < 10 \<Longrightarrow> decimal n = [digit n]"
  by simp

lemma decimal_more: "10 \<le> n \<Longrightarrow> decimal n = decimal (n div 10) @ [digit (n mod 10)]"
  by simp

declare decimal.simps [simp del]

lemma digit_chars:
  "digit 0 = CHR ''0''" "digit 1 = CHR ''1''" "digit 2 = CHR ''2''" "digit 3 = CHR ''3''"
  "digit 4 = CHR ''4''" "digit 5 = CHR ''5''" "digit 6 = CHR ''6''" "digit 7 = CHR ''7''"
  "digit 8 = CHR ''8''" "digit 9 = CHR ''9''" "digit (Suc 0) = CHR ''1''"
  by code_simp+

lemma replicate_small: "replicate 2 x = [x, x]" "replicate 1 x = [x]"
  by (simp_all add: numeral_2_eq_2)

theorem String_round_trip_witness:
  "and_then (Path_Start \<lparr>X = 0, Y = 0\<rparr> \<lparr>elems = [], spare = [7, 7, 7]\<rparr>) (\<lambda>p.
   and_then (Path_Add1 \<lparr>X = 25600, Y = 0\<rparr> p) (\<lambda>p.
   and_then (Path_Add2 \<lparr>X = 38400, Y = 12800\<rparr> \<lparr>X = 25600, Y = 25600\<rparr> p) (\<lambda>p.
   and_then (Path_Add3 \<lparr>X = 12800, Y = 38400\<rparr> \<lparr>X = 0, Y = 38400\<rparr> \<lparr>X = - 320, Y = 25600\<rparr> p)
     Path_String))) =
   Inr ''S0[0:000 0:000] A1[100:000 0:000] A2[150:000 50:000 100:000 100:000] A3[50:000 150:000 0:000 150:000 -1:064 100:000]''"
  using String_round_trip [of "\<lparr>X = 0, Y = 0\<rparr>" "[7, 7, 7]" "\<lparr>X = 25600, Y = 0\<rparr>"
      "\<lparr>X = 38400, Y = 12800\<rparr>" "\<lparr>X = 25600, Y = 25600\<rparr>"
      "\<lparr>X = 12800, Y = 38400\<rparr>" "\<lparr>X = 0, Y = 38400\<rparr>" "\<lparr>X = - 320, Y = 25600\<rparr>"]
  by (simp add: Fix32_String_def quo_def rem_def fmt_d_def fmt_03d_def zero_pad_def
      decimal_digit decimal_more digit_chars word_sless_alt replicate_small)

subsection \<open>The rendering determines the scalar\<close>

text \<open>
  Two scalars with the same rendering are equal, so a token gives back every
  coordinate it carries.
\<close>

lemma of_char_digit: "d < 10 \<Longrightarrow> of_char (digit d) = (48 + d :: nat)"
  by (simp add: digit_def)

lemma decimal_value_snoc:
  "decimal_value (ds @ [c]) = 10 * decimal_value ds + (of_char c - 48)"
  by (simp add: decimal_value_def)

lemma decimal_value_decimal: "decimal_value (decimal n) = n"
proof (induction n rule: decimal.induct)
  case (1 n)
  show ?case
  proof (cases "n < 10")
    case True
    then show ?thesis by (simp add: decimal_digit decimal_value_def of_char_digit)
  next
    case False
    then have "decimal_value (decimal (n div 10)) = n div 10" by (rule "1.IH")
    moreover have "n mod 10 < 10" by simp
    ultimately show ?thesis
      using False by (simp add: decimal_more decimal_value_snoc of_char_digit)
  qed
qed

lemma decimal_inj:
  assumes "decimal m = decimal n"
  shows "m = n"
proof -
  have "decimal_value (decimal m) = decimal_value (decimal n)" by (simp only: assms)
  then show ?thesis by (simp only: decimal_value_decimal)
qed

lemma decimal_value_zeros: "decimal_value (replicate k CHR ''0'' @ ds) = decimal_value ds"
proof -
  have "foldl (\<lambda>a c. 10 * a + (of_char c - 48)) 0 (replicate k CHR ''0'') = (0 :: nat)"
    by (induction k) simp_all
  then show ?thesis by (simp add: decimal_value_def)
qed

lemma decimal_nonempty: "decimal n \<noteq> []"
  by (cases "n < 10") (simp_all add: decimal_digit decimal_more)

lemma hd_decimal: "hd (decimal n) \<noteq> CHR ''-''"
proof (induction n rule: decimal.induct)
  case (1 n)
  show ?case
  proof (cases "n < 10")
    case True
    then have "of_char (digit n) = (48 + n :: nat)" by (rule of_char_digit)
    then have "digit n \<noteq> CHR ''-''" by auto
    with True show ?thesis by (simp add: decimal_digit)
  next
    case False
    then have "hd (decimal (n div 10)) \<noteq> CHR ''-''" by (rule "1.IH")
    with False show ?thesis by (simp add: decimal_more decimal_nonempty)
  qed
qed

lemma length_decimal: "n < 1000 \<Longrightarrow> length (decimal n) \<le> 3"
proof -
  assume n: "n < 1000"
  show ?thesis
  proof (cases "n < 10")
    case True
    then show ?thesis by (simp add: decimal_digit)
  next
    case False
    show ?thesis
    proof (cases "n div 10 < 10")
      case True
      with False show ?thesis by (simp add: decimal_more decimal_digit)
    next
      case F2: False
      from n have "n div 10 div 10 < 10" by simp
      with False F2 show ?thesis by (simp add: decimal_more decimal_digit)
    qed
  qed
qed

lemma length_zero_pad: "n < 1000 \<Longrightarrow> length (zero_pad 3 (decimal n)) = 3"
  using length_decimal [of n] by (simp add: zero_pad_def)

lemma Fix32_String_after_sign:
  "Fix32_String x = (if x <s 0 then ''-'' @ after_sign (- x) else after_sign x)"
  by (simp add: Fix32_String_def after_sign_def Let_def)

lemma after_sign_nonneg:
  assumes "0 \<le> sint x"
  shows "after_sign x = decimal (nat (sint x div 256)) @ '':'' @
                  zero_pad 3 (decimal (nat (sint x mod 256)))"
proof -
  have ub: "sint x < 2147483648" using sint32_bounds [of x] by simp
  have d: "sint x sdiv 256 = sint x div 256" and m: "sint x smod 256 = sint x mod 256"
    using assms by (simp_all add: signed_divide_int_def signed_modulo_int_def sgn_if)
  have q0: "0 \<le> sint x div 256" using assms by (simp add: pos_imp_zdiv_nonneg_iff)
  have "sint x div 256 < 2147483648"
    using zdiv_mono1 [of "sint x" 2147483647 256] ub by simp
  with q0 have q: "sint (quo x 256) = sint x div 256"
    by (simp add: quo_def d sint_of_int32)
  have r0: "0 \<le> sint x mod 256" by simp
  have "sint x mod 256 < 2147483648"
    using pos_mod_bound [of 256 "sint x"] by simp
  with r0 have r: "sint (rem x 256) = sint x mod 256"
    by (simp add: rem_def m sint_of_int32)
  show ?thesis
  proof -
    have "\<not> sint x div 256 < 0" using q0 by simp
    moreover have "\<not> sint x mod 256 < 0" using pos_mod_sign [of 256 "sint x"] by simp
    ultimately show ?thesis by (simp add: after_sign_def q r fmt_d_def fmt_03d_def)
  qed
qed

lemma after_sign_inj_nonneg:
  assumes "0 \<le> sint x" and "0 \<le> sint y" and "after_sign x = after_sign y"
  shows "x = y"
proof -
  let ?q = "\<lambda>z. nat (sint z div 256)" and ?r = "\<lambda>z. nat (sint z mod 256)"
  have rx: "?r x < 1000" and ry: "?r y < 1000"
    using pos_mod_bound [of 256 "sint x"] pos_mod_bound [of 256 "sint y"] by auto
  have "decimal (?q x) @ '':'' @ zero_pad 3 (decimal (?r x)) =
        decimal (?q y) @ '':'' @ zero_pad 3 (decimal (?r y))"
    using assms by (simp add: after_sign_nonneg)
  then have "(decimal (?q x) @ '':'') @ zero_pad 3 (decimal (?r x)) =
             (decimal (?q y) @ '':'') @ zero_pad 3 (decimal (?r y))"
    by simp
  then have "decimal (?q x) @ '':'' = decimal (?q y) @ '':'' \<and>
             zero_pad 3 (decimal (?r x)) = zero_pad 3 (decimal (?r y))"
    using length_zero_pad [OF rx] length_zero_pad [OF ry]
    by (intro append_eq_append_conv [THEN iffD1]) simp_all
  then have dq: "decimal (?q x) = decimal (?q y)"
    and dr: "zero_pad 3 (decimal (?r x)) = zero_pad 3 (decimal (?r y))"
    by simp_all
  from dq have q: "?q x = ?q y" by (rule decimal_inj)
  from dr have "decimal_value (zero_pad 3 (decimal (?r x))) =
                decimal_value (zero_pad 3 (decimal (?r y)))" by simp
  then have r: "?r x = ?r y"
    by (simp add: zero_pad_def decimal_value_zeros decimal_value_decimal)
  have "sint z = 256 * int (?q z) + int (?r z)" if "0 \<le> sint z" for z :: Fix32
    using that by (simp add: pos_imp_zdiv_nonneg_iff)
  with assms(1,2) q r have "sint x = sint y" by metis
  then show ?thesis by (rule signed_word_eqI)
qed

lemma hd_after_sign_nonneg:
  assumes "0 \<le> sint x"
  shows "hd (after_sign x) \<noteq> CHR ''-''"
  using assms hd_decimal by (simp add: after_sign_nonneg decimal_nonempty)

lemma hd_after_sign_min: "x = - 2147483648 \<Longrightarrow> hd (after_sign (- x)) = CHR ''-''"
  by (simp add: after_sign_def quo_def fmt_d_def)

lemma Fix32_String_inj:
  assumes "Fix32_String x = Fix32_String y"
  shows "x = y"
proof -
  have neg: "0 \<le> sint (- z) \<or> z = - 2147483648" if "sint z < 0" for z :: Fix32
  proof (cases "sint z = - (2 ^ 31)")
    case True
    then have "sint z = sint (- 2147483648 :: Fix32)" by simp
    then have "z = - 2147483648" by (rule signed_word_eqI)
    then show ?thesis by simp
  next
    case False
    then have "sint (- z) = - sint z" by (rule sint_minus32)
    with that show ?thesis by simp
  qed
  consider "\<not> sint x < 0" "\<not> sint y < 0" | "sint x < 0" "\<not> sint y < 0"
    | "\<not> sint x < 0" "sint y < 0" | "sint x < 0" "sint y < 0" by blast
  then show ?thesis
  proof cases
    case 1
    with assms have "after_sign x = after_sign y" by (simp add: Fix32_String_after_sign word_sless_alt)
    with 1 show ?thesis by (intro after_sign_inj_nonneg) simp_all
  next
    case 2
    with assms have "''-'' @ after_sign (- x) = after_sign y" by (simp add: Fix32_String_after_sign word_sless_alt)
    then have "hd (after_sign y) = CHR ''-''" by (metis append_Cons list.sel(1))
    with 2 hd_after_sign_nonneg [of y] show ?thesis by simp
  next
    case 3
    with assms have "after_sign x = ''-'' @ after_sign (- y)" by (simp add: Fix32_String_after_sign word_sless_alt)
    then have "hd (after_sign x) = CHR ''-''" by simp
    with 3 hd_after_sign_nonneg [of x] show ?thesis by simp
  next
    case 4
    with assms have b: "after_sign (- x) = after_sign (- y)" by (simp add: Fix32_String_after_sign word_sless_alt)
    from neg [OF 4(1)] neg [OF 4(2)]
    consider "0 \<le> sint (- x)" "0 \<le> sint (- y)" | "x = - 2147483648" "y = - 2147483648"
      | "x = - 2147483648" "0 \<le> sint (- y)" "y \<noteq> - 2147483648"
      | "0 \<le> sint (- x)" "y = - 2147483648" "x \<noteq> - 2147483648"
      by blast
    then show ?thesis
    proof cases
      case 1
      with b have "- x = - y" by (intro after_sign_inj_nonneg)
      then show ?thesis by simp
    next
      case 2
      then show ?thesis by simp
    next
      case 3
      from hd_after_sign_min [OF 3(1)] have "hd (after_sign (- y)) = CHR ''-''" unfolding b .
      with 3 hd_after_sign_nonneg [of "- y"] show ?thesis by simp
    next
      case 4
      from hd_after_sign_min [OF 4(2)] have "hd (after_sign (- x)) = CHR ''-''" unfolding b [symmetric] .
      with 4 hd_after_sign_nonneg [of "- x"] show ?thesis by simp
    qed
  qed
qed

section \<open>The reverse traversal\<close>

lemma encode_call_tail:
  "\<exists>u t. encode_call c = u @ [X (endpoint c), Y (endpoint c), t]"
proof (cases c)
  case (StartCall a)
  then have "encode_call c = [0] @ [X (endpoint c), Y (endpoint c), 0]" by simp
  then show ?thesis by blast
next
  case (Add1Call b)
  then have "encode_call c = [1] @ [X (endpoint c), Y (endpoint c), 1]" by simp
  then show ?thesis by blast
next
  case (Add2Call b c')
  then have "encode_call c = [2, X b, Y b] @ [X (endpoint c), Y (endpoint c), 2]" by simp
  then show ?thesis by blast
next
  case (Add3Call b c' d)
  then have "encode_call c = [3, X b, Y b, X c', Y c'] @ [X (endpoint c), Y (endpoint c), 3]"
    by simp
  then show ?thesis by blast
qed

lemma encode_tail:
  assumes "cs \<noteq> []"
  shows "\<exists>u t. encode cs = u @ [X (endpoint (last cs)), Y (endpoint (last cs)), t]"
proof -
  from assms obtain ds c where cs: "cs = ds @ [c]" by (metis rev_exhaust)
  obtain u t where "encode_call c = u @ [X (endpoint c), Y (endpoint c), t]"
    using encode_call_tail by blast
  with cs have "encode cs = (encode ds @ u) @ [X (endpoint (last cs)), Y (endpoint (last cs)), t]"
    by simp
  then show ?thesis by blast
qed

lemma nat_numeral_plus_int:
  "nat (numeral b + int a) = numeral b + a" "nat (int a + numeral b) = a + numeral b"
  "nat (1 + int a) = 1 + a" "nat (int a + 1) = a + 1"
  by (simp_all add: nat_add_distrib)

lemma Point_eta: "\<lparr>X = X b, Y = Y b\<rparr> = (b :: Point)"
  by (cases b) simp

lemma rev_body_segment:
  assumes "is_segment c" and "q = u @ [ex, ey, t] @ encode_call c @ post"
  shows "rev_body ad q (int (length u + 3 + length (encode_call c)) - 1) s =
         and_then (apply_call ad (mirror \<lparr>X = ex, Y = ey\<rparr> c) s)
           (\<lambda>s'. Inr (Continue (int (length u + 3) - 1) s'))"
proof (cases c)
  case (StartCall a)
  with assms show ?thesis by simp
next
  case (Add1Call b)
  with assms show ?thesis
    by (simp add: rev_body_def index_def point_at_def Pt_def nth_append Let_def nat_numeral_plus_int Point_eta)
next
  case (Add2Call b c')
  with assms show ?thesis
    by (simp add: rev_body_def index_def point_at_def Pt_def nth_append Let_def nat_numeral_plus_int Point_eta)
next
  case (Add3Call b c' d)
  with assms show ?thesis
    by (simp add: rev_body_def index_def point_at_def Pt_def nth_append Let_def nat_numeral_plus_int Point_eta)
qed

lemma rev_body_start:
  assumes "q = u @ encode_call (StartCall a) @ post"
  shows "rev_body ad q (int (length u + 4) - 1) s = Inr (Return s)"
  using assms by (simp add: rev_body_def index_def nth_append nat_numeral_plus_int)

lemma rev_body_bad_tag:
  assumes "0 \<le> i" and "i < int (length q)" and "q ! nat i \<notin> {0, 1, 2, 3}"
  shows "rev_body ad q i s = Inl BadPath"
  using assms by (simp add: rev_body_def index_def)

lemma reverse_calls_snoc:
  "reverse_calls e (ss @ [c]) = mirror (endpoint (last (StartCall e # ss))) c # reverse_calls e ss"
  by (induction ss arbitrary: e) simp_all


lemma rev_loop_Continue:
  assumes "rev_body ad q i s = and_then m (\<lambda>s'. Inr (Continue j s'))"
  shows "rev_loop ad q i s = and_then m (rev_loop ad q j)"
  by (subst rev_loop.simps) (cases m; simp add: assms)

lemma rev_loop_Return:
  assumes "rev_body ad q i s = Inr (Return s')"
  shows "rev_loop ad q i s = Inr s'"
  by (subst rev_loop.simps) (simp add: assms)

lemma rev_loop_Inl:
  assumes "rev_body ad q i s = Inl e"
  shows "rev_loop ad q i s = Inl e"
  by (subst rev_loop.simps) (simp add: assms)

lemma rev_loop_contour:
  assumes "\<forall>c \<in> set segs. is_segment c"
  shows "rev_loop ad (pre @ encode (StartCall a # segs) @ post)
           (int (length (pre @ encode (StartCall a # segs))) - 1) s =
         replay ad (reverse_calls a segs) s"
  using assms
proof (induction segs arbitrary: post s rule: rev_induct)
  case Nil
  have "rev_body ad (pre @ encode_call (StartCall a) @ post) (int (length pre + 4) - 1) s =
        Inr (Return s)"
    by (rule rev_body_start) (rule refl)
  then have "rev_loop ad (pre @ encode_call (StartCall a) @ post) (int (length pre + 4) - 1) s =
        Inr s"
    by (rule rev_loop_Return)
  then show ?case by simp
next
  case (snoc c ss)
  let ?q = "pre @ encode (StartCall a # ss @ [c]) @ post"
  let ?e = "endpoint (last (StartCall a # ss))"
  from snoc.prems have seg: "is_segment c" and segs: "\<forall>c \<in> set ss. is_segment c"
    by simp_all
  obtain u t where u: "encode (StartCall a # ss) = u @ [X ?e, Y ?e, t]"
    using encode_tail [of "StartCall a # ss"] by blast
  have q: "?q = (pre @ u) @ [X ?e, Y ?e, t] @ encode_call c @ post"
    using u by simp
  have q': "?q = pre @ encode (StartCall a # ss) @ (encode_call c @ post)"
    by simp
  have lu: "length (encode (StartCall a # ss)) = length (u @ [X ?e, Y ?e, t])"
    by (simp only: u)
  have len0: "length (pre @ encode (StartCall a # ss)) = length (pre @ u) + 3"
    unfolding length_append lu by simp
  have "encode (StartCall a # ss @ [c]) = encode (StartCall a # ss) @ encode_call c"
    by simp
  then have len1: "length (pre @ encode (StartCall a # ss @ [c])) =
              length (pre @ u) + 3 + length (encode_call c)"
    unfolding length_append lu by (simp only: length_append lu) simp
  have "rev_body ad ?q (int (length (pre @ u) + 3 + length (encode_call c)) - 1) s =
        and_then (apply_call ad (mirror \<lparr>X = X ?e, Y = Y ?e\<rparr> c) s)
          (\<lambda>s'. Inr (Continue (int (length (pre @ u) + 3) - 1) s'))"
    using seg q by (rule rev_body_segment)
  then have step: "rev_loop ad ?q (int (length (pre @ u) + 3 + length (encode_call c)) - 1) s =
        and_then (apply_call ad (mirror \<lparr>X = X ?e, Y = Y ?e\<rparr> c) s)
          (rev_loop ad ?q (int (length (pre @ u) + 3) - 1))"
    by (rule rev_loop_Continue)
  have ih: "rev_loop ad ?q (int (length (pre @ u) + 3) - 1) = replay ad (reverse_calls a ss)"
  proof (rule ext)
    fix s'
    show "rev_loop ad ?q (int (length (pre @ u) + 3) - 1) s' = replay ad (reverse_calls a ss) s'"
      unfolding len0 [symmetric] q' using segs by (rule snoc.IH)
  qed
  show ?case
    unfolding len1 step ih Point_eta reverse_calls_snoc replay.simps by (rule refl)
qed

lemma addPathReversed_contour:
  assumes "elems q = pre @ encode (StartCall a # segs)" and "\<forall>c \<in> set segs. is_segment c"
  shows "addPathReversed ad q s = replay ad (reverse_calls a segs) s"
proof -
  have ne: "length (elems q) \<noteq> 0" using assms(1) by simp
  have "rev_loop ad (pre @ encode (StartCall a # segs) @ [])
          (int (length (pre @ encode (StartCall a # segs))) - 1) s =
        replay ad (reverse_calls a segs) s"
    using assms(2) by (rule rev_loop_contour)
  then show ?thesis using ne assms(1) by (simp add: addPathReversed_def)
qed

lemma apply_call_Recorder: "apply_call Recorder c tr = Inr (tr @ [c])"
  by (cases c) (simp_all add: Recorder_def)

lemma replay_Recorder: "replay Recorder cs tr = Inr (tr @ cs)"
  by (induction cs arbitrary: tr) (simp_all add: apply_call_Recorder)


lemma and_then_return [simp]: "and_then m Inr = m"
  by (cases m) (simp_all add: and_then_def)

lemma rev_body_record:
  assumes "is_segment c" and "cs \<noteq> []"
  shows "rev_body ad (pre @ encode (cs @ [c]) @ post) (int (length (pre @ encode (cs @ [c]))) - 1) s =
         and_then (apply_call ad (mirror (endpoint (last cs)) c) s)
           (\<lambda>s'. Inr (Continue (int (length (pre @ encode cs)) - 1) s'))"
proof -
  let ?e = "endpoint (last cs)"
  obtain u t where u: "encode cs = u @ [X ?e, Y ?e, t]"
    using encode_tail [OF assms(2)] by blast
  have q: "pre @ encode (cs @ [c]) @ post = (pre @ u) @ [X ?e, Y ?e, t] @ encode_call c @ post"
    using u by simp
  have len0: "length (pre @ encode cs) = length (pre @ u) + 3"
    using u by simp
  have len1: "length (pre @ encode (cs @ [c])) = length (pre @ u) + 3 + length (encode_call c)"
    using u by simp
  show ?thesis
    unfolding len0 len1 using rev_body_segment [OF assms(1) q, of ad s]
    by (simp only: Point_eta)
qed

lemma replay_Nil_fun [simp]: "replay p [] = Inr"
  by (rule ext) simp

lemma replay_single [simp]: "replay p [c] = apply_call p c"
  by (rule ext) simp

lemma apply_call_fun [simp]:
  "apply_call p (StartCall a) = Start p a" "apply_call p (Add1Call b) = Add1 p b"
  "apply_call p (Add2Call b c) = Add2 p b c" "apply_call p (Add3Call b c d) = Add3 p b c d"
  by (rule ext, simp)+

text \<open>
  C1. For all points, the contour built forward as \<open>Start a\<close>, \<open>Add1 b\<close>, \<open>Add2 c d\<close>
  is replayed in reverse by \<open>addPathReversed\<close>, on any Adder in any state, as exactly
  the call \<open>Add2 c b\<close> followed by the call \<open>Add1 a\<close>. On a recording Adder that has
  been started at \<open>d\<close> the calls received are \<open>Start d\<close>, \<open>Add2 c b\<close>, \<open>Add1 a\<close>: the walk
  itself emits no \<open>Start\<close>. The walk stops at the tag-0 record of the contour, whatever
  the buffer holds before it.
\<close>

theorem addPathReversed_replays_backwards:
  "and_then (Path_Start a \<lparr>elems = [], spare = sp\<rparr>) (\<lambda>q.
   and_then (Path_Add1 b q) (\<lambda>q.
   and_then (Path_Add2 c d q) (\<lambda>q.
     addPathReversed ad q s))) = and_then (Add2 ad c b s) (Add1 ad a) \<and>
   and_then (Path_Start a \<lparr>elems = [], spare = sp\<rparr>) (\<lambda>q.
   and_then (Path_Add1 b q) (\<lambda>q.
   and_then (Path_Add2 c d q) (\<lambda>q.
   and_then (Start Recorder d []) (addPathReversed Recorder q)))) =
     Inr [StartCall d, Add2Call c b, Add1Call a] \<and>
   addPathReversed ad
     \<lparr>elems = pre @ [0, X a, Y a, 0, 1, X b, Y b, 1, 2, X c, Y c, X d, Y d, 2], spare = sp\<rparr> s =
     and_then (Add2 ad c b s) (Add1 ad a)"
proof -
  let ?segs = "[Add1Call b, Add2Call c d]"
  have segs: "\<forall>x \<in> set ?segs. is_segment x" by simp
  have rc: "reverse_calls a ?segs = [Add2Call c b, Add1Call a]" by simp
  have walk: "addPathReversed ad' q s' = and_then (Add2 ad' c b s') (Add1 ad' a)"
    if "elems q = pre' @ encode (StartCall a # ?segs)" for ad' :: "'b Adder" and q pre' s'
    using addPathReversed_contour [OF that segs, of ad' s'] unfolding rc by simp
  let ?q = "extend [2, X c, Y c, X d, Y d, 2]
              (extend [1, X b, Y b, 1] (extend [0, X a, Y a, 0] \<lparr>elems = [], spare = sp\<rparr>))"
  have q: "elems ?q = [] @ encode (StartCall a # ?segs)" by simp
  have built: "and_then (Path_Start a \<lparr>elems = [], spare = sp\<rparr>) (\<lambda>q.
     and_then (Path_Add1 b q) (\<lambda>q. and_then (Path_Add2 c d q) f)) = f ?q" for f :: "Path \<Rightarrow> error + 'c"
    by (simp add: Path_Start_extend Path_Add1_extend Path_Add2_extend)
  have 1: "addPathReversed ad ?q s = and_then (Add2 ad c b s) (Add1 ad a)"
    using q by (rule walk)
  have "addPathReversed Recorder ?q [StartCall d] =
        and_then (Add2 Recorder c b [StartCall d]) (Add1 Recorder a)"
    using q by (rule walk)
  then have 2: "and_then (Start Recorder d []) (addPathReversed Recorder ?q) =
        Inr [StartCall d, Add2Call c b, Add1Call a]"
    by (simp add: Recorder_def)
  have 3: "addPathReversed ad
     \<lparr>elems = pre @ [0, X a, Y a, 0, 1, X b, Y b, 1, 2, X c, Y c, X d, Y d, 2], spare = sp\<rparr> s =
     and_then (Add2 ad c b s) (Add1 ad a)"
    by (rule walk) simp
  show ?thesis unfolding built using 1 2 3 by (intro conjI)
qed

theorem addPathReversed_replays_backwards_witness:
  "returns
     (and_then (Path_Start \<lparr>X = 10, Y = 11\<rparr> \<lparr>elems = [], spare = []\<rparr>) (\<lambda>q.
      and_then (Path_Add1 \<lparr>X = 20, Y = 21\<rparr> q) (\<lambda>q.
      and_then (Path_Add2 \<lparr>X = 30, Y = 31\<rparr> \<lparr>X = 40, Y = 41\<rparr> q) (\<lambda>q.
        addPathReversed Path_Adder q \<lparr>elems = [0, 40, 41, 0], spare = []\<rparr>))))
     (\<lambda>r. elems r = [0, 40, 41, 0, 2, 30, 31, 20, 21, 2, 1, 10, 11, 1])"
  using addPathReversed_replays_backwards [of "\<lparr>X = 10, Y = 11\<rparr>" "[]" "\<lparr>X = 20, Y = 21\<rparr>"
      "\<lparr>X = 30, Y = 31\<rparr>" "\<lparr>X = 40, Y = 41\<rparr>" Path_Adder "\<lparr>elems = [0, 40, 41, 0], spare = []\<rparr>" "[]"]
  by (simp add: Path_Adder_def Path_Add1_extend Path_Add2_extend returns_def)

text \<open>
  C9. For a buffer that is a single contour, one tag-0 record followed by any number
  of tag-1/2/3 records, \<open>addPathReversed\<close> returns on every Adder: it makes exactly
  the mirrored calls of the segments, last segment first, and never reaches the
  bad-path panic or an index out of range. At the last index of the tag-0 record an
  iteration returns; at the last index of any later record an iteration reads only
  within the buffer, makes the mirrored call of that record and goes on at the last
  index of the record before it. For an empty buffer nothing is read or emitted.
\<close>

theorem addPathReversed_single_contour:
  assumes "\<forall>c \<in> set segs. is_segment c"
  shows "addPathReversed ad \<lparr>elems = encode (StartCall a # segs), spare = sp\<rparr> s =
           replay ad (reverse_calls a segs) s \<and>
         addPathReversed Recorder \<lparr>elems = encode (StartCall a # segs), spare = sp\<rparr> tr =
           Inr (tr @ reverse_calls a segs) \<and>
         rev_body ad (encode (StartCall a # segs)) 3 s = Inr (Return s) \<and>
         (\<forall>xs c ys. segs = xs @ c # ys \<longrightarrow>
            rev_body ad (encode (StartCall a # segs))
              (int (length (encode (StartCall a # xs @ [c]))) - 1) s =
            and_then (apply_call ad (mirror (endpoint (last (StartCall a # xs))) c) s)
              (\<lambda>s'. Inr (Continue (int (length (encode (StartCall a # xs))) - 1) s'))) \<and>
         addPathReversed ad \<lparr>elems = [], spare = sp\<rparr> s = Inr s"
proof -
  let ?q = "\<lparr>elems = encode (StartCall a # segs), spare = sp\<rparr>"
  have e: "elems ?q = [] @ encode (StartCall a # segs)" by simp
  have 1: "addPathReversed ad' ?q s' = replay ad' (reverse_calls a segs) s'"
    for ad' :: "'b Adder" and s'
    using e assms by (rule addPathReversed_contour)
  have 2: "addPathReversed Recorder ?q tr = Inr (tr @ reverse_calls a segs)"
    by (simp only: 1 replay_Recorder)
  have 3: "rev_body ad (encode (StartCall a # segs)) 3 s = Inr (Return s)"
    using rev_body_start [of "encode (StartCall a # segs)" "[]" a "encode segs" ad s] by simp
  have 4: "rev_body ad (encode (StartCall a # segs))
              (int (length (encode (StartCall a # xs @ [c]))) - 1) s =
            and_then (apply_call ad (mirror (endpoint (last (StartCall a # xs))) c) s)
              (\<lambda>s'. Inr (Continue (int (length (encode (StartCall a # xs))) - 1) s'))"
    if "segs = xs @ c # ys" for xs c ys
  proof -
    from that assms have c: "is_segment c" by simp
    have "encode (StartCall a # segs) = [] @ encode ((StartCall a # xs) @ [c]) @ encode ys"
      using that by simp
    then show ?thesis
      using rev_body_record [OF c, of "StartCall a # xs" ad "[]" "encode ys" s] by simp
  qed
  have 5: "addPathReversed ad \<lparr>elems = [], spare = sp\<rparr> s = Inr s"
    by (simp add: addPathReversed_def)
  show ?thesis
  proof (intro conjI allI impI)
    show "addPathReversed ad ?q s = replay ad (reverse_calls a segs) s" by (rule 1)
    show "addPathReversed Recorder ?q tr = Inr (tr @ reverse_calls a segs)" by (rule 2)
    show "rev_body ad (encode (StartCall a # segs)) 3 s = Inr (Return s)" by (rule 3)
    show "addPathReversed ad \<lparr>elems = [], spare = sp\<rparr> s = Inr s" by (rule 5)
  next
    fix xs c ys
    assume "segs = xs @ c # ys"
    then show "rev_body ad (encode (StartCall a # segs))
              (int (length (encode (StartCall a # xs @ [c]))) - 1) s =
            and_then (apply_call ad (mirror (endpoint (last (StartCall a # xs))) c) s)
              (\<lambda>s'. Inr (Continue (int (length (encode (StartCall a # xs))) - 1) s'))"
      by (rule 4)
  qed
qed

theorem addPathReversed_single_contour_witness:
  "addPathReversed Recorder
     \<lparr>elems = [0, 10, 11, 0, 1, 20, 21, 1, 3, 50, 51, 60, 61, 70, 71, 3], spare = [9]\<rparr> [] =
   Inr [Add3Call \<lparr>X = 60, Y = 61\<rparr> \<lparr>X = 50, Y = 51\<rparr> \<lparr>X = 20, Y = 21\<rparr>,
        Add1Call \<lparr>X = 10, Y = 11\<rparr>]"
proof -
  let ?segs = "[Add1Call \<lparr>X = 20, Y = 21\<rparr>,
                Add3Call \<lparr>X = 50, Y = 51\<rparr> \<lparr>X = 60, Y = 61\<rparr> \<lparr>X = 70, Y = 71\<rparr>]"
  have h: "\<forall>c \<in> set ?segs. is_segment c" by simp
  from addPathReversed_single_contour [OF h, of Recorder "\<lparr>X = 10, Y = 11\<rparr>" "[9]" "[]" "[]"]
  have "addPathReversed Recorder
          \<lparr>elems = encode (StartCall \<lparr>X = 10, Y = 11\<rparr> # ?segs), spare = [9]\<rparr> [] =
        Inr ([] @ reverse_calls \<lparr>X = 10, Y = 11\<rparr> ?segs)"
    by (rule conjunct2 [THEN conjunct1])
  then show ?thesis by simp
qed

section \<open>Unrecognised tags\<close>

lemma String_loop_prefix:
  assumes "elems p = pre @ encode cs @ rest"
  shows "\<exists>s'. String_loop p (length pre) s = String_loop p (length pre + length (encode cs)) s'"
  using assms
proof (induction cs arbitrary: pre s)
  case Nil
  then show ?case by auto
next
  case (Cons c cs)
  let ?s = "(if pre = [] then s else s @ '' '') @ token c"
  from Cons.prems have e: "elems p = pre @ encode_call c @ (encode cs @ rest)" by simp
  then have e': "elems p = (pre @ encode_call c) @ encode cs @ rest" by simp
  have "String_loop p (length pre) s = String_loop p (length (pre @ encode_call c)) ?s"
    using String_loop_step [OF e, of s] by simp
  moreover obtain s' where "String_loop p (length (pre @ encode_call c)) ?s =
      String_loop p (length (pre @ encode_call c) + length (encode cs)) s'"
    using Cons.IH [OF e'] by blast
  ultimately have "String_loop p (length pre) s =
      String_loop p (length pre + length (encode (c # cs))) s'"
    by (simp add: add.assoc)
  then show ?case by blast
qed

lemma hd_encode_call: "hd (encode_call c) = 0 \<longleftrightarrow> \<not> is_segment c"
  by (cases c) simp_all

lemma last_contour:
  assumes "cs \<noteq> []" and "\<not> is_segment (hd cs)"
  shows "\<exists>ds a segs. cs = ds @ StartCall a # segs \<and> (\<forall>c \<in> set segs. is_segment c)"
proof -
  from assms have "\<exists>c \<in> set cs. \<not> is_segment c" by (cases cs) auto
  then obtain ds c segs where cs: "cs = ds @ c # segs" and c: "\<not> is_segment c"
    and segs: "\<forall>z \<in> set segs. \<not> \<not> is_segment z"
    using split_list_last_prop [of cs "\<lambda>c. \<not> is_segment c"] by blast
  from c obtain a where "c = StartCall a" by (cases c) simp_all
  with cs segs show ?thesis by auto
qed

lemma well_formed_last_contour:
  assumes "well_formed xs" and "xs \<noteq> []"
  shows "\<exists>ds a segs. xs = encode ds @ encode (StartCall a # segs) \<and>
           (\<forall>c \<in> set segs. is_segment c)"
proof -
  from assms obtain cs where xs: "xs = encode cs" and hd: "hd xs = 0"
    using framed_decode by (auto simp: well_formed_def)
  from xs assms(2) obtain c cs' where cs: "cs = c # cs'" by (cases cs) auto
  have "encode_call c \<noteq> []" by (cases c) simp_all
  with xs cs hd have "hd (encode_call c) = 0" by simp
  then have "\<not> is_segment (hd cs)" using cs by (simp add: hd_encode_call)
  with cs obtain ds a segs where "cs = ds @ StartCall a # segs" "\<forall>c \<in> set segs. is_segment c"
    using last_contour [of cs] by auto
  with xs have "xs = encode ds @ encode (StartCall a # segs) \<and> (\<forall>c \<in> set segs. is_segment c)"
    by simp
  then show ?thesis by blast
qed

lemma addPathReversed_well_formed:
  assumes "well_formed (elems q)"
  shows "\<exists>cs. addPathReversed ad q s = replay ad cs s"
proof (cases "elems q = []")
  case True
  then have "addPathReversed ad q s = replay ad [] s" by (simp add: addPathReversed_def)
  then show ?thesis by blast
next
  case False
  with assms obtain ds a segs where "elems q = encode ds @ encode (StartCall a # segs)"
    and "\<forall>c \<in> set segs. is_segment c"
    using well_formed_last_contour by blast
  then have "addPathReversed ad q s = replay ad (reverse_calls a segs) s"
    by (rule addPathReversed_contour)
  then show ?thesis by blast
qed

lemma Path_String_well_formed:
  assumes "well_formed (elems p)"
  shows "\<exists>str. Path_String p = Inr str"
proof -
  from assms obtain cs where "elems p = encode cs"
    using framed_decode by (auto simp: well_formed_def)
  then have "Path_String p = Inr (join_tokens cs)" by (rule Path_String_encode)
  then show ?thesis by blast
qed

lemma Path_String_bad_tag:
  assumes "elems p = pre @ t # rest" and "framed pre" and "t \<notin> {0, 1, 2, 3}"
  shows "Path_String p = Inl BadPath"
proof -
  from assms(2) obtain cs where pre: "pre = encode cs" using framed_decode by blast
  with assms(1) have e: "elems p = [] @ encode cs @ (t # rest)" by simp
  obtain s' where "String_loop p (length ([] :: Fix32 list)) [] =
      String_loop p (length ([] :: Fix32 list) + length (encode cs)) s'"
    using String_loop_prefix [OF e] by blast
  then have "Path_String p = String_loop p (length pre) s'"
    by (simp add: Path_String_def pre)
  moreover have "String_loop p (length pre) s' = Inl BadPath"
    using assms(1,3) by (intro String_loop_bad_tag) simp_all
  ultimately show ?thesis by simp
qed

lemma rev_loop_bad_tag:
  assumes "0 \<le> i" and "i < int (length q)" and "q ! nat i \<notin> {0, 1, 2, 3}"
  shows "rev_loop ad q i s = Inl BadPath"
  using rev_body_bad_tag [OF assms] by (rule rev_loop_Inl)

lemma addPathReversed_bad_tag:
  assumes "elems q \<noteq> []" and "last (elems q) \<notin> {0, 1, 2, 3}"
  shows "addPathReversed ad q s = Inl BadPath"
proof -
  let ?i = "int (length (elems q)) - 1"
  have "nat ?i = length (elems q) - 1" by simp
  with assms have "elems q ! nat ?i \<notin> {0, 1, 2, 3}" by (simp add: last_conv_nth)
  moreover have "0 \<le> ?i" "?i < int (length (elems q))" using assms(1) by (simp_all add: Suc_leI)
  ultimately have "rev_loop ad (elems q) ?i s = Inl BadPath" by (intro rev_loop_bad_tag)
  with assms(1) show ?thesis by (simp add: addPathReversed_def)
qed


text \<open>
  A well-formed buffer is a concatenation of contours, each one tag-0 record followed
  by tag-1/2/3 records, and every such concatenation is well-formed.
\<close>

lemma calls_contours:
  assumes "cs = [] \<or> \<not> is_segment (hd cs)"
  shows "\<exists>cts. cs = concat (map (\<lambda>(a, segs). StartCall a # segs) cts) \<and>
           (\<forall>(a, segs) \<in> set cts. \<forall>c \<in> set segs. is_segment c)"
  using assms
proof (induction "length cs" arbitrary: cs rule: less_induct)
  case less
  show ?case
  proof (cases "cs = []")
    case True
    then have "cs = concat (map (\<lambda>(a, segs). StartCall a # segs) [])" by simp
    then show ?thesis by (intro exI [of _ "[]"]) simp
  next
    case False
    with less.prems obtain ds a segs where cs: "cs = ds @ StartCall a # segs"
      and segs: "\<forall>c \<in> set segs. is_segment c"
      using last_contour [of cs] by auto
    have "ds = [] \<or> \<not> is_segment (hd ds)"
      using less.prems False cs by (cases ds) auto
    moreover have "length ds < length cs" using cs by simp
    ultimately obtain cts where ds: "ds = concat (map (\<lambda>(a, segs). StartCall a # segs) cts)"
      and all: "\<forall>(a, segs) \<in> set cts. \<forall>c \<in> set segs. is_segment c"
      using less.hyps [of ds] by blast
    have "cs = concat (map (\<lambda>(a, segs). StartCall a # segs) (cts @ [(a, segs)]))"
      using cs ds by simp
    moreover have "\<forall>(a, segs) \<in> set (cts @ [(a, segs)]). \<forall>c \<in> set segs. is_segment c"
      using all segs by auto
    ultimately show ?thesis by blast
  qed
qed

lemma well_formed_contours:
  "well_formed xs \<longleftrightarrow>
     (\<exists>cts. xs = concat (map (\<lambda>(a, segs). encode (StartCall a # segs)) cts) \<and>
        (\<forall>(a, segs) \<in> set cts. \<forall>c \<in> set segs. is_segment c))"
proof
  assume wf: "well_formed xs"
  then obtain cs where xs: "xs = encode cs"
    using framed_decode by (auto simp: well_formed_def)
  have "cs = [] \<or> \<not> is_segment (hd cs)"
  proof (cases cs)
    case Nil
    then show ?thesis by simp
  next
    case (Cons c cs')
    have "encode_call c \<noteq> []" by (cases c) simp_all
    with wf xs Cons have "hd (encode_call c) = 0" by (simp add: well_formed_def)
    with Cons show ?thesis by (simp add: hd_encode_call)
  qed
  then obtain cts where cs: "cs = concat (map (\<lambda>(a, segs). StartCall a # segs) cts)"
    and all: "\<forall>(a, segs) \<in> set cts. \<forall>c \<in> set segs. is_segment c"
    using calls_contours by blast
  have "encode (concat (map (\<lambda>(a, segs). StartCall a # segs) cts)) =
        concat (map (\<lambda>(a, segs). encode (StartCall a # segs)) cts)"
    by (induction cts) (auto simp del: encode_Cons)
  with xs cs all show "\<exists>cts. xs = concat (map (\<lambda>(a, segs). encode (StartCall a # segs)) cts) \<and>
        (\<forall>(a, segs) \<in> set cts. \<forall>c \<in> set segs. is_segment c)"
    by auto
next
  assume "\<exists>cts. xs = concat (map (\<lambda>(a, segs). encode (StartCall a # segs)) cts) \<and>
        (\<forall>(a, segs) \<in> set cts. \<forall>c \<in> set segs. is_segment c)"
  then obtain cts where xs: "xs = concat (map (\<lambda>(a, segs). encode (StartCall a # segs)) cts)"
    by blast
  have "well_formed (concat (map (\<lambda>(a, segs). encode (StartCall a # segs)) cts))"
  proof (induction cts)
    case Nil
    show ?case by (simp add: well_formed_def)
  next
    case (Cons ct cts)
    obtain a segs where ct: "ct = (a, segs)" by (cases ct)
    have "framed (encode (StartCall a # segs))" by (rule framed_encode)
    moreover have "framed (concat (map (\<lambda>(a, segs). encode (StartCall a # segs)) cts))"
      using Cons.IH by (simp add: well_formed_def)
    ultimately have "framed (encode (StartCall a # segs) @
        concat (map (\<lambda>(a, segs). encode (StartCall a # segs)) cts))"
      by (rule framed_append)
    then show ?case unfolding well_formed_def using ct by simp
  qed
  with xs show "well_formed xs" by simp
qed

text \<open>
  C4. Whenever the tag that \<open>String\<close> reads next, or the trailing tag that
  \<open>addPathReversed\<close> reads, is a scalar outside \<open>{0, 1, 2, 3}\<close>, the operation panics
  with the bad-path failure instead of returning: in any iteration of either loop, for
  \<open>String\<close> after any framed prefix of the buffer, and for \<open>addPathReversed\<close> at the
  last element of a non-empty buffer. For a well-formed buffer neither operation
  takes that branch: \<open>String\<close> returns a string, and \<open>addPathReversed\<close> is the replay
  of some calls on the Adder, which a recording Adder always completes.
\<close>

theorem bad_tag_fails_loudly:
  "(i < length (elems p) \<and> elems p ! i \<notin> {0, 1, 2, 3} \<longrightarrow>
      String_loop p i str = Inl BadPath) \<and>
   (elems p = pre @ t # rest \<and> framed pre \<and> t \<notin> {0, 1, 2, 3} \<longrightarrow>
      Path_String p = Inl BadPath) \<and>
   (0 \<le> j \<and> j < int (length q) \<and> q ! nat j \<notin> {0, 1, 2, 3} \<longrightarrow>
      rev_loop ad q j s = Inl BadPath) \<and>
   (elems p \<noteq> [] \<and> last (elems p) \<notin> {0, 1, 2, 3} \<longrightarrow>
      addPathReversed ad p s = Inl BadPath) \<and>
   (well_formed (elems w) \<longrightarrow>
      (\<exists>out. Path_String w = Inr out) \<and>
      (\<exists>cs. addPathReversed ad w s = replay ad cs s) \<and>
      (\<exists>cs. addPathReversed Recorder w tr = Inr (tr @ cs)))"
proof (intro conjI impI)
  assume "i < length (elems p) \<and> elems p ! i \<notin> {0, 1, 2, 3}"
  then show "String_loop p i str = Inl BadPath" by (simp add: String_loop_bad_tag)
next
  assume "elems p = pre @ t # rest \<and> framed pre \<and> t \<notin> {0, 1, 2, 3}"
  then show "Path_String p = Inl BadPath" by (auto intro: Path_String_bad_tag [of p pre t rest])
next
  assume "0 \<le> j \<and> j < int (length q) \<and> q ! nat j \<notin> {0, 1, 2, 3}"
  then show "rev_loop ad q j s = Inl BadPath" by (simp add: rev_loop_bad_tag)
next
  assume "elems p \<noteq> [] \<and> last (elems p) \<notin> {0, 1, 2, 3}"
  then show "addPathReversed ad p s = Inl BadPath" by (simp add: addPathReversed_bad_tag)
next
  assume "well_formed (elems w)"
  then show "\<exists>out. Path_String w = Inr out" by (rule Path_String_well_formed)
next
  assume "well_formed (elems w)"
  then show "\<exists>cs. addPathReversed ad w s = replay ad cs s" by (rule addPathReversed_well_formed)
next
  assume wf: "well_formed (elems w)"
  from addPathReversed_well_formed [OF wf, of Recorder tr]
  obtain cs where "addPathReversed Recorder w tr = replay Recorder cs tr" by (rule exE)
  then have "addPathReversed Recorder w tr = Inr (tr @ cs)" by (simp only: replay_Recorder)
  then show "\<exists>cs. addPathReversed Recorder w tr = Inr (tr @ cs)" by (rule exI)
qed

theorem bad_tag_fails_loudly_witness:
  "String_loop \<lparr>elems = [0, 1, 2, 0, 7, 1, 2, 7], spare = []\<rparr> 4 ''S0[0:001 0:002]'' = Inl BadPath \<and>
   Path_String \<lparr>elems = [0, 1, 2, 0, 7, 1, 2, 7], spare = []\<rparr> = Inl BadPath \<and>
   rev_loop Recorder [0, 1, 2, 0, 7, 1, 2, 7] 7 [] = Inl BadPath \<and>
   addPathReversed Recorder \<lparr>elems = [0, 1, 2, 0, 7, 1, 2, 7], spare = []\<rparr> [] = Inl BadPath \<and>
   (\<exists>out. Path_String \<lparr>elems = [0, 1, 2, 0, 1, 3, 4, 1], spare = []\<rparr> = Inr out) \<and>
   (\<exists>cs. addPathReversed Recorder \<lparr>elems = [0, 1, 2, 0, 1, 3, 4, 1], spare = []\<rparr> [] = Inr cs)"
  using bad_tag_fails_loudly [where p = "\<lparr>elems = [0, 1, 2, 0, 7, 1, 2, 7], spare = []\<rparr>"
      and i = 4 and str = "''S0[0:001 0:002]''" and pre = "[0, 1, 2, 0]" and t = 7
      and rest = "[1, 2, 7]" and q = "[0, 1, 2, 0, 7, 1, 2, 7]" and j = 7 and ad = Recorder
      and s = "[]" and w = "\<lparr>elems = [0, 1, 2, 0, 1, 3, 4, 1], spare = []\<rparr>" and tr = "[]"]
  by (simp add: well_formed_def)

end
